theory Spec2Isabelle
  imports Main "HOL-Library.Product_Lexorder" "HOL-Library.Char_ord"
    "HOL-Library.List_Lexorder" "HOL-Library.AList"
begin

section \<open>PriorityDict: a dictionary kept in value order\<close>

text \<open>
  The development embeds \<^verbatim>\<open>src/prioritydict.py\<close>. A \<^verbatim>\<open>PriorityDict\<close> owns a
  Python \<^verbatim>\<open>dict\<close> (\<^verbatim>\<open>_dict\<close>, key to value) and a \<^verbatim>\<open>sortedcontainers.SortedList\<close>
  (\<^verbatim>\<open>_list\<close>) of \<^verbatim>\<open>(value, key)\<close> tuples. Keys and values are taken from linear
  orders; the arithmetic merges work on Python's unbounded integers (\<open>int\<close>).
  Every \<^verbatim>\<open>raise\<close> of the source is a \<open>Raise\<close> result that carries the state the
  objects are left in when the exception surfaces.
\<close>

subsection \<open>Exceptions and results\<close>

datatype error = KeyError | ValueError | IndexError | TypeError | AttributeError

datatype ('a, 's) result = Return 'a 's | Raise error 's

fun state_of :: "('a, 's) result \<Rightarrow> 's" where
  "state_of (Return a s) = s"
| "state_of (Raise e s) = s"

fun raised :: "('a, 's) result \<Rightarrow> error option" where
  "raised (Return a s) = None"
| "raised (Raise e s) = Some e"

subsection \<open>The built-in dict\<close>

text \<open>
  A \<^verbatim>\<open>dict\<close> is an association list with one pair per key, in iteration order.
  \<^verbatim>\<open>d[k] = v\<close> is \<open>AList.update k v d\<close> (an existing key keeps its place, a new
  one goes last), \<^verbatim>\<open>del d[k]\<close> is \<open>AList.delete k d\<close>, \<^verbatim>\<open>d[k]\<close> is \<open>map_of d k\<close>
  with \<open>None\<close> for the \<^verbatim>\<open>KeyError\<close>, and \<^verbatim>\<open>k in d\<close> is \<open>contains d k\<close>.
\<close>

type_synonym ('k, 'v) pydict = "('k \<times> 'v) list"

definition contains :: "('k, 'v) pydict \<Rightarrow> 'k \<Rightarrow> bool" where
  "contains d key = (map_of d key \<noteq> None)"

text \<open>\<^verbatim>\<open>d.update(items)\<close> for a mapping \<^verbatim>\<open>items\<close>: one assignment per item, in order.\<close>

definition dict_update :: "('k, 'v) pydict \<Rightarrow> ('k, 'v) pydict \<Rightarrow> ('k, 'v) pydict" where
  "dict_update items d = fold (\<lambda>(key, value). AList.update key value) items d"

text \<open>The generator \<^verbatim>\<open>((value, key) for key, value in iter_items(_dict))\<close>.\<close>

definition value_key_pairs :: "('k, 'v) pydict \<Rightarrow> ('v \<times> 'k) list" where
  "value_key_pairs d = map (\<lambda>(key, value). (value, key)) d"

subsection \<open>The Ordered Sequence Store\<close>

text \<open>
  Modelled from the spec: \<^verbatim>\<open>sortedcontainers.SortedList\<close> is imported by the source
  and is not part of it. Following the specification's contract of the Ordered
  Sequence Store (sorted insertion, removal of a present element, positional access
  and deletion, bisection), the store is a single ascending list. \<^verbatim>\<open>add\<close> inserts
  before the first greater element, \<^verbatim>\<open>remove\<close> raises \<^verbatim>\<open>ValueError\<close> (here \<open>None\<close>)
  for an absent element, \<^verbatim>\<open>update\<close> adds a batch and leaves the whole sorted, and the
  two bisections are the loops of Python's \<^verbatim>\<open>bisect\<close> module, which the library
  calls with the comparison \<^verbatim>\<open>a[mid] < x\<close> (left) and \<^verbatim>\<open>x < a[mid]\<close> (right).
\<close>

definition sl_add :: "'a::linorder \<Rightarrow> 'a list \<Rightarrow> 'a list" where
  \<comment> \<open>Modelled from the spec: \<^verbatim>\<open>SortedList.add\<close>, insertion that keeps the order\<close>
  "sl_add x xs = insort x xs"

definition sl_remove :: "'a \<Rightarrow> 'a list \<Rightarrow> 'a list option" where
  \<comment> \<open>Modelled from the spec: \<^verbatim>\<open>SortedList.remove\<close>, \<open>None\<close> is its \<^verbatim>\<open>ValueError\<close>\<close>
  "sl_remove x xs = (if x \<in> set xs then Some (remove1 x xs) else None)"

definition sl_update :: "'a::linorder list \<Rightarrow> 'a list \<Rightarrow> 'a list" where
  \<comment> \<open>Modelled from the spec: \<^verbatim>\<open>SortedList.update\<close>, a batch insertion\<close>
  "sl_update new xs = sort (xs @ new)"

text \<open>Positions: a negative index counts from the end; out of range is \<^verbatim>\<open>IndexError\<close>.\<close>

definition sl_position :: "'a list \<Rightarrow> int \<Rightarrow> nat option" where
  \<comment> \<open>Modelled from the spec: the position an index of the store stands for\<close>
  "sl_position xs index =
     (let n = int (length xs); pos = (if index < 0 then n + index else index)
      in if 0 \<le> pos \<and> pos < n then Some (nat pos) else None)"

definition sl_getitem :: "'a list \<Rightarrow> int \<Rightarrow> 'a option" where
  \<comment> \<open>Modelled from the spec: \<^verbatim>\<open>SortedList.__getitem__\<close> at an index\<close>
  "sl_getitem xs index = map_option (\<lambda>pos. xs ! pos) (sl_position xs index)"

definition delete_at :: "nat \<Rightarrow> 'a list \<Rightarrow> 'a list" where
  \<comment> \<open>Modelled from the spec: removal of one position\<close>
  "delete_at pos xs = take pos xs @ drop (Suc pos) xs"

definition sl_delitem :: "'a list \<Rightarrow> int \<Rightarrow> 'a list option" where
  \<comment> \<open>Modelled from the spec: \<^verbatim>\<open>SortedList.__delitem__\<close> at an index\<close>
  "sl_delitem xs index = map_option (\<lambda>pos. delete_at pos xs) (sl_position xs index)"

definition sl_pop :: "'a list \<Rightarrow> int \<Rightarrow> ('a \<times> 'a list) option" where
  \<comment> \<open>Modelled from the spec: \<^verbatim>\<open>SortedList.pop\<close>\<close>
  "sl_pop xs index = map_option (\<lambda>pos. (xs ! pos, delete_at pos xs)) (sl_position xs index)"

function bisect_left_loop :: "('a \<Rightarrow> bool) \<Rightarrow> 'a list \<Rightarrow> nat \<Rightarrow> nat \<Rightarrow> nat" where
  \<comment> \<open>Modelled from the spec: the loop of \<^verbatim>\<open>bisect.bisect_left\<close>, with \<open>lt_x item\<close> for \<^verbatim>\<open>item < x\<close>\<close>
  "bisect_left_loop lt_x a lo hi =
     (if lo < hi
      then (if lt_x (a ! ((lo + hi) div 2))
            then bisect_left_loop lt_x a ((lo + hi) div 2 + 1) hi
            else bisect_left_loop lt_x a lo ((lo + hi) div 2))
      else lo)"
  by pat_completeness auto
termination
  by (relation "measure (\<lambda>(lt_x, a, lo, hi). hi - lo)") auto

function bisect_right_loop :: "('a \<Rightarrow> bool) \<Rightarrow> 'a list \<Rightarrow> nat \<Rightarrow> nat \<Rightarrow> nat" where
  \<comment> \<open>Modelled from the spec: the loop of \<^verbatim>\<open>bisect.bisect_right\<close>, with \<open>x_lt item\<close> for \<^verbatim>\<open>x < item\<close>\<close>
  "bisect_right_loop x_lt a lo hi =
     (if lo < hi
      then (if x_lt (a ! ((lo + hi) div 2))
            then bisect_right_loop x_lt a lo ((lo + hi) div 2)
            else bisect_right_loop x_lt a ((lo + hi) div 2 + 1) hi)
      else lo)"
  by pat_completeness auto
termination
  by (relation "measure (\<lambda>(x_lt, a, lo, hi). hi - lo)") auto

declare bisect_left_loop.simps [simp del] bisect_right_loop.simps [simp del]

text \<open>
  \<open>sl_bisect_left lt_x xs\<close> takes the probe as the test \<^verbatim>\<open>item < probe\<close>,
  \<open>sl_bisect_right x_lt xs\<close> as the test \<^verbatim>\<open>probe < item\<close>: the probes of the source
  are tuples that are not items of the list.
\<close>

definition sl_bisect_left :: "('a \<Rightarrow> bool) \<Rightarrow> 'a list \<Rightarrow> nat" where
  \<comment> \<open>Modelled from the spec: \<^verbatim>\<open>SortedList.bisect_left\<close>\<close>
  "sl_bisect_left lt_x xs = bisect_left_loop lt_x xs 0 (length xs)"

definition sl_bisect_right :: "('a \<Rightarrow> bool) \<Rightarrow> 'a list \<Rightarrow> nat" where
  \<comment> \<open>Modelled from the spec: \<^verbatim>\<open>SortedList.bisect_right\<close>\<close>
  "sl_bisect_right x_lt xs = bisect_right_loop x_lt xs 0 (length xs)"

subsection \<open>Tuple comparison with the probes\<close>

text \<open>
  \<^verbatim>\<open>_Biggest\<close> answers every \<^verbatim>\<open>__lt__\<close> and \<^verbatim>\<open>__eq__\<close> with \<^verbatim>\<open>False\<close>. Python compares
  tuples at the first position where the components are not equal, and by length when
  one is a prefix of the other.
\<close>

definition Biggest_lt :: "'k \<Rightarrow> bool" where
  "Biggest_lt that = False"

definition Biggest_eq :: "'k \<Rightarrow> bool" where
  "Biggest_eq that = False"

text \<open>\<^verbatim>\<open>(value', key) < (value,)\<close>\<close>

definition item_lt_tuple1 :: "'v::linorder \<Rightarrow> ('v \<times> 'k) \<Rightarrow> bool" where
  "item_lt_tuple1 value item =
     (if fst item \<noteq> value then fst item < value else (2::nat) < 1)"

text \<open>\<^verbatim>\<open>(value, _Biggest) < (value', key)\<close>\<close>

definition tuple_biggest_lt_item :: "'v::linorder \<Rightarrow> ('v \<times> 'k) \<Rightarrow> bool" where
  "tuple_biggest_lt_item value item =
     (if value \<noteq> fst item then value < fst item
      else if Biggest_eq (snd item) then (2::nat) < 2
      else Biggest_lt (snd item))"

subsection \<open>The container\<close>

record ('k, 'v) PriorityDict =
  p_dict :: "('k \<times> 'v) list"
  p_list :: "('v \<times> 'k) list"

type_synonym ('k, 'v, 'a) call = "('a, ('k, 'v) PriorityDict) result"

definition setitem ::
  "'k::linorder \<Rightarrow> 'v::linorder \<Rightarrow> ('k, 'v) PriorityDict \<Rightarrow> ('k, 'v, unit) call" where
  "setitem key value self =
     (case map_of (p_dict self) key of
        Some old_value \<Rightarrow>
          (case sl_remove (old_value, key) (p_list self) of
             None \<Rightarrow> Raise ValueError self
           | Some l \<Rightarrow>
               Return () \<lparr>p_dict = AList.update key value (p_dict self),
                          p_list = sl_add (value, key) l\<rparr>)
      | None \<Rightarrow>
          Return () \<lparr>p_dict = AList.update key value (p_dict self),
                     p_list = sl_add (value, key) (p_list self)\<rparr>)"

definition delitem ::
  "'k \<Rightarrow> ('k, 'v) PriorityDict \<Rightarrow> ('k, 'v, unit) call" where
  "delitem key self =
     (case map_of (p_dict self) key of
        None \<Rightarrow> Raise KeyError self
      | Some value \<Rightarrow>
          (case sl_remove (value, key) (p_list self) of
             None \<Rightarrow> Raise ValueError self
           | Some l \<Rightarrow> Return () \<lparr>p_dict = AList.delete key (p_dict self), p_list = l\<rparr>))"

definition pop ::
  "'k \<Rightarrow> 'v option \<Rightarrow> ('k, 'v) PriorityDict \<Rightarrow> ('k, 'v, 'v) call" where
  \<comment> \<open>\<open>dflt = None\<close> stands for \<^verbatim>\<open>default=_NotGiven\<close>.\<close>
  "pop key dflt self =
     (case map_of (p_dict self) key of
        Some value \<Rightarrow>
          (case sl_remove (value, key) (p_list self) of
             None \<Rightarrow> Raise ValueError self
           | Some l \<Rightarrow> Return value \<lparr>p_dict = AList.delete key (p_dict self), p_list = l\<rparr>)
      | None \<Rightarrow>
          (case dflt of
             None \<Rightarrow> Raise KeyError self
           | Some given \<Rightarrow> Return given self))"

definition popitem ::
  "int \<Rightarrow> ('k, 'v) PriorityDict \<Rightarrow> ('k, 'v, 'k \<times> 'v) call" where
  "popitem index self =
     (case sl_pop (p_list self) index of
        None \<Rightarrow> Raise IndexError self
      | Some ((value, key), l) \<Rightarrow>
          (if contains (p_dict self) key
           then Return (key, value) \<lparr>p_dict = AList.delete key (p_dict self), p_list = l\<rparr>
           else Raise KeyError (self\<lparr>p_list := l\<rparr>)))"

subsection \<open>Building a dict from the arguments of update\<close>

text \<open>
  \<^verbatim>\<open>dict(*args)\<close> accepts nothing, a mapping, or an iterable whose elements are
  unpacked as sequences of length two. An element is described by what the built-in
  sees: a two-sequence \<open>Pair key value\<close>, a sequence of another length
  (\<^verbatim>\<open>ValueError\<close>), or an object that is no sequence (\<^verbatim>\<open>TypeError\<close>). Pairs before a
  bad element are not kept by the caller: the dict under construction is dropped.
  A Python \<^verbatim>\<open>str\<close> is a sequence of its one-character strings. Keyword arguments
  (string keys only) are left out: the calls modelled pass one positional argument or
  none.
\<close>

datatype ('k, 'v) element = Pair 'k 'v | WrongLength nat | NotASequence

datatype ('k, 'v) args = NoArgs | Mapping "('k \<times> 'v) list" | Iterable "('k, 'v) element list"

definition str_element :: "string \<Rightarrow> (string, string) element" where
  "str_element s = (if length s = 2 then Pair [s ! 0] [s ! 1] else WrongLength (length s))"

fun dict_from_elements ::
  "('k, 'v) element list \<Rightarrow> ('k, 'v) pydict \<Rightarrow> error + ('k, 'v) pydict" where
  "dict_from_elements [] d = Inr d"
| "dict_from_elements (Pair key value # es) d = dict_from_elements es (AList.update key value d)"
| "dict_from_elements (WrongLength n # es) d = Inl ValueError"
| "dict_from_elements (NotASequence # es) d = Inl TypeError"

fun py_dict :: "('k, 'v) args \<Rightarrow> error + ('k, 'v) pydict" where
  "py_dict NoArgs = Inr []"
| "py_dict (Mapping m) = Inr (dict_update m [])"
| "py_dict (Iterable es) = dict_from_elements es []"

subsection \<open>update and construction\<close>

text \<open>The \<^verbatim>\<open>else\<close> branch of \<^verbatim>\<open>update\<close>: one pass over the items.\<close>

fun update_loop ::
  "('k::linorder, 'v::linorder) pydict \<Rightarrow> ('k, 'v) PriorityDict \<Rightarrow> ('k, 'v, unit) call" where
  "update_loop [] self = Return () self"
| "update_loop ((key, value) # items) self =
     (case map_of (p_dict self) key of
        None \<Rightarrow> Raise KeyError self
      | Some old_value \<Rightarrow>
          (case sl_remove (old_value, key) (p_list self) of
             None \<Rightarrow> Raise ValueError self
           | Some l \<Rightarrow>
               update_loop items
                 \<lparr>p_dict = AList.update key value (p_dict self),
                  p_list = sl_add (value, key) l\<rparr>))"

definition update ::
  "('k::linorder, 'v::linorder) args \<Rightarrow> ('k, 'v) PriorityDict \<Rightarrow> ('k, 'v, unit) call" where
  "update arguments self =
     (case py_dict arguments of
        Inl e \<Rightarrow> Raise e self
      | Inr items \<Rightarrow>
          (if 10 * length items > length (p_dict self)
           then (let d = dict_update items (p_dict self)
                 in Return () \<lparr>p_dict = d, p_list = sl_update (value_key_pairs d) []\<rparr>)
           else update_loop items self))"

definition init :: "('k::linorder, 'v::linorder) args \<Rightarrow> ('k, 'v, unit) call" where
  "init arguments = update arguments \<lparr>p_dict = [], p_list = []\<rparr>"

subsection \<open>Bisection, clean, most_common\<close>

definition bisect_left :: "'v::linorder \<Rightarrow> ('k, 'v) PriorityDict \<Rightarrow> nat" where
  "bisect_left value self = sl_bisect_left (item_lt_tuple1 value) (p_list self)"

definition bisect_right :: "'v::linorder \<Rightarrow> ('k, 'v) PriorityDict \<Rightarrow> nat" where
  "bisect_right value self = sl_bisect_right (tuple_biggest_lt_item value) (p_list self)"

text \<open>The loop of \<^verbatim>\<open>clean\<close> deleting the keys of \<^verbatim>\<open>_list[:pos]\<close> from the dict.\<close>

fun del_keys :: "'k list \<Rightarrow> ('k, 'v) pydict \<Rightarrow> 'k list \<times> ('k, 'v) pydict" where
  \<comment> \<open>returns the keys not reached (empty when the loop ran to its end) and the dict\<close>
  "del_keys [] d = ([], d)"
| "del_keys (key # keys) d =
     (if contains d key then del_keys keys (AList.delete key d) else (key # keys, d))"

definition clean :: "'v::linorder \<Rightarrow> ('k, 'v) PriorityDict \<Rightarrow> ('k, 'v, unit) call" where
  "clean value self =
     (let pos = bisect_right value self;
          (rest, d) = del_keys (map snd (take pos (p_list self))) (p_dict self)
      in if rest = []
         then Return () \<lparr>p_dict = d, p_list = drop pos (p_list self)\<rparr>
         else Raise KeyError (self\<lparr>p_dict := d\<rparr>))"

text \<open>\<^verbatim>\<open>xrange(end, start, -1)\<close>: \<^verbatim>\<open>end, end - 1, ..., start + 1\<close>, empty when \<^verbatim>\<open>end \<le> start\<close>.\<close>

definition xrange_down :: "int \<Rightarrow> int \<Rightarrow> int list" where
  "xrange_down end start = rev [start + 1 .. end]"

fun getitems :: "'a list \<Rightarrow> int list \<Rightarrow> 'a list option" where
  "getitems xs [] = Some []"
| "getitems xs (pos # poss) =
     (case sl_getitem xs pos of
        None \<Rightarrow> None
      | Some x \<Rightarrow> map_option ((#) x) (getitems xs poss))"

definition most_common ::
  "int option \<Rightarrow> ('k, 'v) PriorityDict \<Rightarrow> error + ('k \<times> 'v) list" where
  "most_common count self =
     (case count of
        None \<Rightarrow> Inr (map (\<lambda>(value, key). (key, value)) (rev (p_list self)))
      | Some c \<Rightarrow>
          (let end = int (length (p_dict self)) - 1;
               start = max (end - c) (- 1)
           in case getitems (p_list self) (xrange_down end start) of
                None \<Rightarrow> Inl IndexError
              | Some items \<Rightarrow> Inr (map (\<lambda>(value, key). (key, value)) items)))"

subsection \<open>In-place merges\<close>

text \<open>
  The operand \<^verbatim>\<open>that\<close> is a mapping, given by its items in the order
  \<^verbatim>\<open>iter_items(that)\<close> yields them. Each merge has three branches: \<^verbatim>\<open>self\<close> empty,
  \<^verbatim>\<open>len(that) * 3 > len(_dict)\<close> (the list is cleared, the dict updated item by item
  and the list rebuilt), and the incremental loop. The functions \<open>add_items\<close>,
  \<open>sub_items\<close>, \<open>or_items\<close> and \<open>and_items\<close> are the loops over the dict alone.
\<close>

fun add_items :: "('k, int) pydict \<Rightarrow> ('k, int) pydict \<Rightarrow> ('k, int) pydict" where
  "add_items [] d = d"
| "add_items ((key, value) # that) d =
     (case map_of d key of
        Some old_value \<Rightarrow> add_items that (AList.update key (old_value + value) d)
      | None \<Rightarrow> add_items that (AList.update key value d))"

fun sub_items :: "('k, int) pydict \<Rightarrow> ('k, int) pydict \<Rightarrow> ('k, int) pydict" where
  "sub_items [] d = d"
| "sub_items ((key, value) # that) d =
     (case map_of d key of
        Some old_value \<Rightarrow> sub_items that (AList.update key (old_value - value) d)
      | None \<Rightarrow> sub_items that d)"

fun or_items :: "('k, int) pydict \<Rightarrow> ('k, int) pydict \<Rightarrow> ('k, int) pydict" where
  "or_items [] d = d"
| "or_items ((key, value) # that) d =
     (case map_of d key of
        Some old_value \<Rightarrow> or_items that (AList.update key (max old_value value) d)
      | None \<Rightarrow> or_items that (AList.update key value d))"

fun and_items :: "('k, int) pydict \<Rightarrow> ('k, int) pydict \<Rightarrow> ('k, int) pydict" where
  "and_items [] d = d"
| "and_items ((key, value) # that) d =
     (case map_of d key of
        Some old_value \<Rightarrow> and_items that (AList.update key (min old_value value) d)
      | None \<Rightarrow> and_items that d)"

fun iadd_loop ::
  "('k::linorder, int) pydict \<Rightarrow> ('k, int) PriorityDict \<Rightarrow> ('k, int, unit) call" where
  "iadd_loop [] self = Return () self"
| "iadd_loop ((key, value) # that) self =
     (case map_of (p_dict self) key of
        Some old_value \<Rightarrow>
          (case sl_remove (old_value, key) (p_list self) of
             None \<Rightarrow> Raise ValueError self
           | Some l \<Rightarrow>
               iadd_loop that
                 \<lparr>p_dict = AList.update key (old_value + value) (p_dict self),
                  p_list = sl_add (old_value + value, key) l\<rparr>)
      | None \<Rightarrow>
          iadd_loop that
            \<lparr>p_dict = AList.update key value (p_dict self),
             p_list = sl_add (value, key) (p_list self)\<rparr>)"

fun isub_loop ::
  "('k::linorder, int) pydict \<Rightarrow> ('k, int) PriorityDict \<Rightarrow> ('k, int, unit) call" where
  "isub_loop [] self = Return () self"
| "isub_loop ((key, value) # that) self =
     (case map_of (p_dict self) key of
        Some old_value \<Rightarrow>
          (case sl_remove (old_value, key) (p_list self) of
             None \<Rightarrow> Raise ValueError self
           | Some l \<Rightarrow>
               isub_loop that
                 \<lparr>p_dict = AList.update key (old_value - value) (p_dict self),
                  p_list = sl_add (old_value - value, key) l\<rparr>)
      | None \<Rightarrow> isub_loop that self)"

fun ior_loop ::
  "('k::linorder, int) pydict \<Rightarrow> ('k, int) PriorityDict \<Rightarrow> ('k, int, unit) call" where
  "ior_loop [] self = Return () self"
| "ior_loop ((key, value) # that) self =
     (case map_of (p_dict self) key of
        Some old_value \<Rightarrow>
          (case sl_remove (old_value, key) (p_list self) of
             None \<Rightarrow> Raise ValueError self
           | Some l \<Rightarrow>
               ior_loop that
                 \<lparr>p_dict = AList.update key (max old_value value) (p_dict self),
                  p_list = sl_add (max old_value value, key) l\<rparr>)
      | None \<Rightarrow>
          ior_loop that
            \<lparr>p_dict = AList.update key value (p_dict self),
             p_list = sl_add (value, key) (p_list self)\<rparr>)"

fun iand_loop ::
  "('k::linorder, int) pydict \<Rightarrow> ('k, int) PriorityDict \<Rightarrow> ('k, int, unit) call" where
  "iand_loop [] self = Return () self"
| "iand_loop ((key, value) # that) self =
     (case map_of (p_dict self) key of
        Some old_value \<Rightarrow>
          (case sl_remove (old_value, key) (p_list self) of
             None \<Rightarrow> Raise ValueError self
           | Some l \<Rightarrow>
               iand_loop that
                 \<lparr>p_dict = AList.update key (min old_value value) (p_dict self),
                  p_list = sl_add (min old_value value, key) l\<rparr>)
      | None \<Rightarrow> iand_loop that self)"

definition iadd ::
  "('k::linorder, int) pydict \<Rightarrow> ('k, int) PriorityDict \<Rightarrow> ('k, int, unit) call" where
  "iadd that self =
     (if length (p_dict self) = 0
      then (let d = dict_update that (p_dict self)
            in Return () \<lparr>p_dict = d, p_list = sl_update (value_key_pairs d) (p_list self)\<rparr>)
      else if length that * 3 > length (p_dict self)
      then (let d = add_items that (p_dict self)
            in Return () \<lparr>p_dict = d, p_list = sl_update (value_key_pairs d) []\<rparr>)
      else iadd_loop that self)"

definition isub ::
  "('k::linorder, int) pydict \<Rightarrow> ('k, int) PriorityDict \<Rightarrow> ('k, int, unit) call" where
  "isub that self =
     (if length (p_dict self) = 0
      then Return () \<lparr>p_dict = [], p_list = []\<rparr>
      else if length that * 3 > length (p_dict self)
      then (let d = sub_items that (p_dict self)
            in Return () \<lparr>p_dict = d, p_list = sl_update (value_key_pairs d) []\<rparr>)
      else isub_loop that self)"

definition ior ::
  "('k::linorder, int) pydict \<Rightarrow> ('k, int) PriorityDict \<Rightarrow> ('k, int, unit) call" where
  "ior that self =
     (if length (p_dict self) = 0
      then (let d = dict_update that (p_dict self)
            in Return () \<lparr>p_dict = d, p_list = sl_update (value_key_pairs d) (p_list self)\<rparr>)
      else if length that * 3 > length (p_dict self)
      then (let d = or_items that (p_dict self)
            in Return () \<lparr>p_dict = d, p_list = sl_update (value_key_pairs d) []\<rparr>)
      else ior_loop that self)"

definition iand ::
  "('k::linorder, int) pydict \<Rightarrow> ('k, int) PriorityDict \<Rightarrow> ('k, int, unit) call" where
  "iand that self =
     (if length (p_dict self) = 0
      then Return () \<lparr>p_dict = [], p_list = []\<rparr>
      else if length that * 3 > length (p_dict self)
      then (let d = and_items that (p_dict self)
            in Return () \<lparr>p_dict = d, p_list = sl_update (value_key_pairs d) []\<rparr>)
      else iand_loop that self)"

subsection \<open>Copy-producing merges\<close>

text \<open>
  \<^verbatim>\<open>__add__\<close>, \<^verbatim>\<open>__sub__\<close>, \<^verbatim>\<open>__or__\<close> and \<^verbatim>\<open>__and__\<close> start from
  \<^verbatim>\<open>result = PriorityDict()\<close>, copy \<^verbatim>\<open>self._dict\<close> into the new dict, run the loop over
  \<^verbatim>\<open>that\<close> and build the new list once. \<^verbatim>\<open>self\<close> is not written to.
\<close>

definition op_add ::
  "('k::linorder, int) pydict \<Rightarrow> ('k, int) PriorityDict \<Rightarrow> ('k, int) PriorityDict" where
  "op_add that self =
     (let result = state_of (init NoArgs);
          d = add_items that (dict_update (p_dict self) (p_dict result))
      in \<lparr>p_dict = d, p_list = sl_update (value_key_pairs d) (p_list result)\<rparr>)"

definition op_sub ::
  "('k::linorder, int) pydict \<Rightarrow> ('k, int) PriorityDict \<Rightarrow> ('k, int) PriorityDict" where
  "op_sub that self =
     (let result = state_of (init NoArgs);
          d = sub_items that (dict_update (p_dict self) (p_dict result))
      in \<lparr>p_dict = d, p_list = sl_update (value_key_pairs d) (p_list result)\<rparr>)"



subsection \<open>Slices and the positional accessor\<close>

text \<open>
  A slice \<^verbatim>\<open>slice(start, stop, step)\<close> with optional parts. \<open>slice_indices\<close> is
  \<^verbatim>\<open>slice.indices(len)\<close>: a zero step is \<^verbatim>\<open>ValueError\<close> (\<open>None\<close>), a missing part takes
  the end the step walks from or to, a negative part counts from the end, and both are
  clamped. \<open>py_range\<close> is \<^verbatim>\<open>range(start, stop, step)\<close> for a non-zero step.
\<close>

datatype pyslice = Slice "int option" "int option" "int option"

definition adjust_index :: "int \<Rightarrow> int \<Rightarrow> int \<Rightarrow> int" where
  "adjust_index step len i =
     (if i < 0
      then (if i + len < 0 then (if step < 0 then - 1 else 0) else i + len)
      else if i \<ge> len then (if step < 0 then len - 1 else len)
      else i)"

fun slice_indices :: "pyslice \<Rightarrow> nat \<Rightarrow> (int \<times> int \<times> int) option" where
  "slice_indices (Slice start stop step) n =
     (let len = int n;
          step' = (case step of None \<Rightarrow> 1 | Some s \<Rightarrow> s)
      in if step' = 0 then None
         else Some
           (case start of
              None \<Rightarrow> (if step' < 0 then len - 1 else 0)
            | Some i \<Rightarrow> adjust_index step' len i,
            case stop of
              None \<Rightarrow> (if step' < 0 then - 1 else len)
            | Some i \<Rightarrow> adjust_index step' len i,
            step'))"

definition range_length :: "int \<Rightarrow> int \<Rightarrow> int \<Rightarrow> nat" where
  "range_length start stop step =
     (if step > 0 \<and> start < stop then nat (1 + (stop - 1 - start) div step)
      else if step < 0 \<and> start > stop then nat (1 + (start - 1 - stop) div (- step))
      else 0)"

definition py_range :: "int \<Rightarrow> int \<Rightarrow> int \<Rightarrow> int list" where
  "py_range start stop step =
     map (\<lambda>i. start + int i * step) [0 ..< range_length start stop step]"

definition sl_getslice :: "'a list \<Rightarrow> pyslice \<Rightarrow> 'a list option" where
  \<comment> \<open>Modelled from the spec: \<^verbatim>\<open>SortedList.__getitem__\<close> at a slice\<close>
  "sl_getslice xs sl =
     map_option (\<lambda>(start, stop, step). map (\<lambda>i. xs ! nat i) (py_range start stop step))
       (slice_indices sl (length xs))"

definition delete_positions :: "int list \<Rightarrow> 'a list \<Rightarrow> 'a list" where
  \<comment> \<open>Modelled from the spec: removal of a set of positions\<close>
  "delete_positions poss xs =
     map snd (filter (\<lambda>(i, x). int i \<notin> set poss) (enumerate 0 xs))"

definition sl_delslice :: "'a list \<Rightarrow> pyslice \<Rightarrow> 'a list option" where
  \<comment> \<open>Modelled from the spec: \<^verbatim>\<open>SortedList.__delitem__\<close> at a slice\<close>
  "sl_delslice xs sl =
     map_option (\<lambda>(start, stop, step). delete_positions (py_range start stop step) xs)
       (slice_indices sl (length xs))"

datatype index = Index int | Range pyslice

text \<open>\<^verbatim>\<open>_IlocWrapper.__delitem__\<close>, on the container the wrapper refers to.\<close>

fun iloc_delitem :: "index \<Rightarrow> ('k, 'v) PriorityDict \<Rightarrow> ('k, 'v, unit) call" where
  "iloc_delitem (Range sl) self =
     (case sl_getslice (p_list self) sl of
        None \<Rightarrow> Raise ValueError self
      | Some items \<Rightarrow>
          (case del_keys (map snd items) (p_dict self) of
             (key # rest, d) \<Rightarrow> Raise KeyError (self\<lparr>p_dict := d\<rparr>)
           | ([], d) \<Rightarrow>
               (case sl_delslice (p_list self) sl of
                  None \<Rightarrow> Raise ValueError (self\<lparr>p_dict := d\<rparr>)
                | Some l \<Rightarrow> Return () \<lparr>p_dict = d, p_list = l\<rparr>)))"
| "iloc_delitem (Index i) self =
     (case sl_getitem (p_list self) i of
        None \<Rightarrow> Raise IndexError self
      | Some (value, key) \<Rightarrow>
          (case sl_delitem (p_list self) i of
             None \<Rightarrow> Raise IndexError self
           | Some l \<Rightarrow>
               (if contains (p_dict self) key
                then Return () \<lparr>p_dict = AList.delete key (p_dict self), p_list = l\<rparr>
                else Raise KeyError (self\<lparr>p_list := l\<rparr>))))"

subsection \<open>The invariants\<close>

text \<open>
  \<open>invariant\<close> is the conjunction of I1 to I3 on the representation: the dict has one pair
  per key, the list has no repeated tuple and holds exactly the swapped pairs of the
  dict, and the list is ascending in the lexicographic order of \<open>(value, key)\<close>.
\<close>

definition invariant :: "('k::linorder, 'v::linorder) PriorityDict \<Rightarrow> bool" where
  "invariant self \<longleftrightarrow>
     distinct (map fst (p_dict self)) \<and>
     distinct (p_list self) \<and>
     set (p_list self) = set (value_key_pairs (p_dict self)) \<and>
     sorted (p_list self)"

text \<open>
  \<open>split_at P xs r\<close>: position \<open>r\<close> separates the items of \<open>xs\<close> that satisfy
  \<open>P\<close> (all before \<open>r\<close>) from those that do not (all from \<open>r\<close> on).
\<close>

definition split_at :: "('a \<Rightarrow> bool) \<Rightarrow> 'a list \<Rightarrow> nat \<Rightarrow> bool" where
  "split_at P xs r \<longleftrightarrow>
     r \<le> length xs \<and> (\<forall>i<r. P (xs ! i)) \<and> (\<forall>i. r \<le> i \<and> i < length xs \<longrightarrow> \<not> P (xs ! i))"

text \<open>
  \<open>total_for key that\<close> is the sum of the values the operand \<open>that\<close> yields for
  \<open>key\<close> (one value when \<open>that\<close> is a mapping); it is used to state what the
  arithmetic loops compute.
\<close>

definition total_for :: "'k \<Rightarrow> ('k, int) pydict \<Rightarrow> int" where
  "total_for key that = sum_list (map snd (filter (\<lambda>p. fst p = key) that))"

subsection \<open>The values view\<close>

text \<open>
  An instance is given by the attributes its \<^verbatim>\<open>__init__\<close> sets. \<^verbatim>\<open>ValuesView.__init__\<close>
  sets \<^verbatim>\<open>_list\<close> (the container's sorted list) and \<^verbatim>\<open>_view\<close> (the values view of the
  container's dict) and calls no base-class initialiser; reading any other attribute
  is \<^verbatim>\<open>AttributeError\<close>. The view is taken at the current content of the container.
\<close>

datatype ('k, 'v) attribute = SortedListRef "('v \<times> 'k) list" | DictValues "('k \<times> 'v) list"

type_synonym ('k, 'v) pyinstance = "(string \<times> ('k, 'v) attribute) list"

definition getattr :: "('k, 'v) pyinstance \<Rightarrow> string \<Rightarrow> error + ('k, 'v) attribute" where
  "getattr self name = (case map_of self name of None \<Rightarrow> Inl AttributeError | Some a \<Rightarrow> Inr a)"

fun len :: "('k, 'v) attribute \<Rightarrow> nat" where
  "len (SortedListRef l) = length l"
| "len (DictValues d) = length d"

definition ValuesView_init :: "('k, 'v) PriorityDict \<Rightarrow> ('k, 'v) pyinstance" where
  "ValuesView_init priority_dict =
     [(''_list'', SortedListRef (p_list priority_dict)),
      (''_view'', DictValues (p_dict priority_dict))]"

definition ValuesView_index :: "'v::linorder \<Rightarrow> ('k, 'v) pyinstance \<Rightarrow> error + nat" where
  "ValuesView_index value self =
     (case getattr self ''_list'' of
        Inl e \<Rightarrow> Inl e
      | Inr (DictValues d) \<Rightarrow> Inl AttributeError
      | Inr (SortedListRef l) \<Rightarrow>
          (let pos = sl_bisect_left (item_lt_tuple1 value) l
           in case getattr self ''_dict'' of
                Inl e \<Rightarrow> Inl e
              | Inr d \<Rightarrow>
                  (if pos = len d then Inl ValueError
                   else (case sl_getitem l (int pos) of
                           None \<Rightarrow> Inl IndexError
                         | Some item \<Rightarrow>
                             (if fst item \<noteq> value then Inl ValueError else Inr pos)))))"

definition ValuesView_count :: "'v::linorder \<Rightarrow> ('k, 'v) pyinstance \<Rightarrow> error + int" where
  "ValuesView_count value self =
     (case getattr self ''_list'' of
        Inl e \<Rightarrow> Inl e
      | Inr (DictValues d) \<Rightarrow> Inl AttributeError
      | Inr (SortedListRef l) \<Rightarrow>
          (let start = sl_bisect_left (item_lt_tuple1 value) l;
               end = sl_bisect_right (tuple_biggest_lt_item value) l
           in Inr (int end - int start)))"

subsection \<open>Objects and references: copy\<close>

text \<open>
  For \<^verbatim>\<open>copy\<close> the objects live in a heap, a list of objects addressed by position.
  A \<^verbatim>\<open>PriorityDict\<close> object holds the addresses of its \<^verbatim>\<open>_dict\<close>, its \<^verbatim>\<open>_list\<close> and its
  \<^verbatim>\<open>iloc\<close> wrapper; the wrapper holds the address of the \<^verbatim>\<open>PriorityDict\<close> it was made
  for. Every method reads \<^verbatim>\<open>self._dict\<close> and \<^verbatim>\<open>self._list\<close> and mutates these two objects
  in place, so a method call is: load the two objects, run the method, store them back.
  \<open>None\<close> means that the address does not hold a \<^verbatim>\<open>PriorityDict\<close> with a dict and a
  sorted list behind it.
\<close>

datatype ('k, 'v) object =
    Dict "('k \<times> 'v) list"
  | SortedList "('v \<times> 'k) list"
  | IlocWrapper nat
  | PriorityDictObject nat nat nat

type_synonym ('k, 'v) heap = "('k, 'v) object list"

definition get_fields :: "('k, 'v) heap \<Rightarrow> nat \<Rightarrow> (nat \<times> nat \<times> nat) option" where
  "get_fields h self =
     (if self < length h
      then (case h ! self of PriorityDictObject d l i \<Rightarrow> Some (d, l, i) | _ \<Rightarrow> None)
      else None)"

definition load :: "('k, 'v) heap \<Rightarrow> nat \<Rightarrow> ('k, 'v) PriorityDict option" where
  "load h self =
     (case get_fields h self of
        None \<Rightarrow> None
      | Some (d, l, i) \<Rightarrow>
          (if d < length h \<and> l < length h
           then (case (h ! d, h ! l) of
                   (Dict the_dict, SortedList the_list) \<Rightarrow> Some \<lparr>p_dict = the_dict, p_list = the_list\<rparr>
                 | _ \<Rightarrow> None)
           else None))"

definition store :: "nat \<Rightarrow> ('k, 'v) PriorityDict \<Rightarrow> ('k, 'v) heap \<Rightarrow> ('k, 'v) heap" where
  "store self s h =
     (case get_fields h self of
        None \<Rightarrow> h
      | Some (d, l, i) \<Rightarrow> h[d := Dict (p_dict s), l := SortedList (p_list s)])"

definition call ::
  "(('k, 'v) PriorityDict \<Rightarrow> ('a, ('k, 'v) PriorityDict) result) \<Rightarrow> nat \<Rightarrow> ('k, 'v) heap
     \<Rightarrow> ('a, ('k, 'v) heap) result option" where
  "call method self h =
     (case load h self of
        None \<Rightarrow> None
      | Some s \<Rightarrow>
          Some (case method s of
                  Return a s' \<Rightarrow> Return a (store self s' h)
                | Raise e s' \<Rightarrow> Raise e (store self s' h)))"

text \<open>
  \<^verbatim>\<open>PriorityDict()\<close>: a new object with a new dict, a new sorted list and a new wrapper,
  followed by \<^verbatim>\<open>self.update()\<close>.
\<close>

definition new_PriorityDict ::
  "('k::linorder, 'v::linorder) heap \<Rightarrow> (nat \<times> ('k, 'v) heap) option" where
  "new_PriorityDict h =
     (let self = length h;
          h' = h @ [PriorityDictObject (self + 1) (self + 2) (self + 3),
                    Dict [], SortedList [], IlocWrapper self]
      in map_option (\<lambda>r. (self, state_of r)) (call (update NoArgs) self h'))"

definition copy ::
  "nat \<Rightarrow> ('k::linorder, 'v::linorder) heap \<Rightarrow> (nat \<times> ('k, 'v) heap) option" where
  "copy self h =
     (case new_PriorityDict h of
        None \<Rightarrow> None
      | Some (that, h') \<Rightarrow>
          (case get_fields h' self of
             None \<Rightarrow> None
           | Some (d, l, i) \<Rightarrow> Some (that, h'[that := PriorityDictObject d l i])))"

subsection \<open>Sequences of calls\<close>

text \<open>
  The public mutators as a datatype of calls on one container with integer values.
  \<open>apply_operation\<close> gives the exception raised, if any, and the state the call
  leaves; a copy-producing merge stands for \<^verbatim>\<open>d = d + that\<close> and the like, the container
  it returns becoming the current one. \<open>run\<close> makes the calls one after the other,
  going on after a call that raised, as a caller that catches the exception does.
\<close>

datatype 'k operation =
    SetItem 'k int
  | DelItem 'k
  | Pop 'k "int option"
  | PopItem int
  | Update "('k, int) args"
  | IAdd "('k, int) pydict"
  | ISub "('k, int) pydict"
  | IOr "('k, int) pydict"
  | IAnd "('k, int) pydict"
  | Add "('k, int) pydict"
  | Sub "('k, int) pydict"
  | Or "('k, int) pydict"
  | And "('k, int) pydict"
  | Clean int
  | IlocDel index




subsection \<open>In-place Sum when the addition can raise\<close>

text \<open>
  Python values carry their own \<^verbatim>\<open>+\<close>, which raises \<^verbatim>\<open>TypeError\<close> for operands
  it does not support. Here \<^verbatim>\<open>__iadd__\<close> is given once more with the addition as a
  parameter \<open>add\<close> that returns the sum or the exception; with the total addition of
  the integers it is \<open>iadd\<close> (lemma \<open>iadd_with_total\<close>). On the rebuild branch
  \<^verbatim>\<open>_list.clear()\<close> has run before the loop over \<^verbatim>\<open>that\<close>, and in the incremental loop
  \<^verbatim>\<open>_list.remove((old_value, key))\<close> has run before \<^verbatim>\<open>old_value + value\<close>; the state at
  the exception shows it.

  \<open>pyvalue\<close> are the values \<^verbatim>\<open>int\<close> and \<^verbatim>\<open>str\<close> in the order of Python 2, where every
  number is below every string; \<open>py_add\<close> is their \<^verbatim>\<open>+\<close>.
\<close>

datatype pyvalue = IntValue int | StrValue string

instantiation pyvalue :: linorder
begin

fun less_eq_pyvalue :: "pyvalue \<Rightarrow> pyvalue \<Rightarrow> bool" where
  "less_eq_pyvalue (IntValue a) (IntValue b) = (a \<le> b)"
| "less_eq_pyvalue (IntValue a) (StrValue t) = True"
| "less_eq_pyvalue (StrValue s) (IntValue b) = False"
| "less_eq_pyvalue (StrValue s) (StrValue t) = (s \<le> t)"

definition less_pyvalue :: "pyvalue \<Rightarrow> pyvalue \<Rightarrow> bool" where
  "less_pyvalue x y = (x \<le> y \<and> \<not> y \<le> x)"

instance
proof
  fix x y z :: pyvalue
  show "(x < y) = (x \<le> y \<and> \<not> y \<le> x)" by (simp add: less_pyvalue_def)
  show "x \<le> x" by (cases x) simp_all
  show "x \<le> y \<Longrightarrow> y \<le> z \<Longrightarrow> x \<le> z" by (cases x; cases y; cases z) simp_all
  show "x \<le> y \<Longrightarrow> y \<le> x \<Longrightarrow> x = y" by (cases x; cases y) simp_all
  show "x \<le> y \<or> y \<le> x" by (cases x; cases y) auto
qed

end

fun py_add :: "pyvalue \<Rightarrow> pyvalue \<Rightarrow> error + pyvalue" where
  "py_add (IntValue a) (IntValue b) = Inr (IntValue (a + b))"
| "py_add (StrValue s) (StrValue t) = Inr (StrValue (s @ t))"
| "py_add (IntValue a) (StrValue t) = Inl TypeError"
| "py_add (StrValue s) (IntValue b) = Inl TypeError"

text \<open>The loop of the rebuild branch: the exception, if any, and the dict at that point.\<close>

fun add_items_with ::
  "('v \<Rightarrow> 'v \<Rightarrow> error + 'v) \<Rightarrow> ('k, 'v) pydict \<Rightarrow> ('k, 'v) pydict
     \<Rightarrow> error option \<times> ('k, 'v) pydict" where
  "add_items_with add [] d = (None, d)"
| "add_items_with add ((key, value) # that) d =
     (case map_of d key of
        Some old_value \<Rightarrow>
          (case add old_value value of
             Inl e \<Rightarrow> (Some e, d)
           | Inr new_value \<Rightarrow> add_items_with add that (AList.update key new_value d))
      | None \<Rightarrow> add_items_with add that (AList.update key value d))"

fun iadd_loop_with ::
  "('v \<Rightarrow> 'v \<Rightarrow> error + 'v) \<Rightarrow> ('k::linorder, 'v::linorder) pydict
     \<Rightarrow> ('k, 'v) PriorityDict \<Rightarrow> ('k, 'v, unit) call" where
  "iadd_loop_with add [] self = Return () self"
| "iadd_loop_with add ((key, value) # that) self =
     (case map_of (p_dict self) key of
        Some old_value \<Rightarrow>
          (case sl_remove (old_value, key) (p_list self) of
             None \<Rightarrow> Raise ValueError self
           | Some l \<Rightarrow>
               (case add old_value value of
                  Inl e \<Rightarrow> Raise e (self\<lparr>p_list := l\<rparr>)
                | Inr new_value \<Rightarrow>
                    iadd_loop_with add that
                      \<lparr>p_dict = AList.update key new_value (p_dict self),
                       p_list = sl_add (new_value, key) l\<rparr>))
      | None \<Rightarrow>
          iadd_loop_with add that
            \<lparr>p_dict = AList.update key value (p_dict self),
             p_list = sl_add (value, key) (p_list self)\<rparr>)"

definition iadd_with ::
  "('v \<Rightarrow> 'v \<Rightarrow> error + 'v) \<Rightarrow> ('k::linorder, 'v::linorder) pydict
     \<Rightarrow> ('k, 'v) PriorityDict \<Rightarrow> ('k, 'v, unit) call" where
  "iadd_with add that self =
     (if length (p_dict self) = 0
      then (let d = dict_update that (p_dict self)
            in Return () \<lparr>p_dict = d, p_list = sl_update (value_key_pairs d) (p_list self)\<rparr>)
      else if length that * 3 > length (p_dict self)
      then (case add_items_with add that (p_dict self) of
              (Some e, d) \<Rightarrow> Raise e \<lparr>p_dict = d, p_list = []\<rparr>
            | (None, d) \<Rightarrow> Return () \<lparr>p_dict = d, p_list = sl_update (value_key_pairs d) []\<rparr>)
      else iadd_loop_with add that self)"

section \<open>Lemmas\<close>

lemma in_value_key_pairs [simp]:
  "(value, key) \<in> set (value_key_pairs d) \<longleftrightarrow> (key, value) \<in> set d"
  by (auto simp: value_key_pairs_def)

lemma length_value_key_pairs [simp]: "length (value_key_pairs d) = length d"
  by (simp add: value_key_pairs_def)

lemma distinct_value_key_pairs:
  "distinct (map fst d) \<Longrightarrow> distinct (value_key_pairs d)"
proof -
  assume "distinct (map fst d)"
  then have "distinct d" using distinct_map by blast
  moreover have "inj_on (\<lambda>(key, value). (value, key)) (set d)"
    by (auto simp: inj_on_def)
  ultimately show ?thesis by (simp add: value_key_pairs_def distinct_map)
qed

lemma invariant_length: "invariant self \<Longrightarrow> length (p_dict self) = length (p_list self)"
proof -
  assume h: "invariant self"
  then have "distinct (value_key_pairs (p_dict self))"
    unfolding invariant_def by (simp add: distinct_value_key_pairs)
  then have "card (set (value_key_pairs (p_dict self))) = length (value_key_pairs (p_dict self))"
    by (rule distinct_card)
  moreover from h have "distinct (p_list self)"
    unfolding invariant_def by simp
  then have "card (set (p_list self)) = length (p_list self)"
    by (rule distinct_card)
  moreover from h have "set (p_list self) = set (value_key_pairs (p_dict self))"
    unfolding invariant_def by simp
  ultimately show ?thesis by (metis length_value_key_pairs)
qed

subsection \<open>The basic operations keep the invariants\<close>

lemma map_of_in_set:
  "distinct (map fst d) \<Longrightarrow> (key, value) \<in> set d \<longleftrightarrow> map_of d key = Some value"
  by simp

lemma invariant_member:
  "invariant self \<Longrightarrow>
   (value, key) \<in> set (p_list self) \<longleftrightarrow> map_of (p_dict self) key = Some value"
  by (simp add: invariant_def)

lemma set_update_distinct:
  "distinct (map fst d) \<Longrightarrow>
   set (AList.update key value d) = {p \<in> set d. fst p \<noteq> key} \<union> {(key, value)}"
  by (induction d) (auto simp: rev_image_eqI)

lemma set_delete: "set (AList.delete key d) = {p \<in> set d. fst p \<noteq> key}"
  by (auto simp: AList.delete_eq)

lemma invariant_rebuild:
  "distinct (map fst d) \<Longrightarrow> invariant \<lparr>p_dict = d, p_list = sl_update (value_key_pairs d) []\<rparr>"
  by (simp add: invariant_def sl_update_def distinct_value_key_pairs)

lemma invariant_insert:
  assumes "invariant self" "map_of (p_dict self) key = None"
  shows "invariant \<lparr>p_dict = AList.update key value (p_dict self),
              p_list = sl_add (value, key) (p_list self)\<rparr>"
proof -
  let ?d = "p_dict self"
  have d: "distinct (map fst ?d)" using assms by (simp add: invariant_def)
  have nk: "\<And>v. (key, v) \<notin> set ?d"
    using assms(2) by (metis map_of_eq_None_iff fst_conv image_eqI)
  have "(value, key) \<notin> set (p_list self)" using assms by (simp add: invariant_member)
  moreover have "set (value_key_pairs (AList.update key value ?d))
      = insert (value, key) (set (value_key_pairs ?d))"
    using nk by (auto simp: set_update_distinct[OF d])
  ultimately show ?thesis using assms(1)
    by (simp add: invariant_def sl_add_def distinct_insort sorted_insort set_insort_key
        AList.distinct_update)
qed

lemma sl_remove_present:
  assumes "invariant self" "map_of (p_dict self) key = Some old_value"
  shows "sl_remove (old_value, key) (p_list self) = Some (remove1 (old_value, key) (p_list self))"
  using assms by (simp add: sl_remove_def invariant_member)

lemma invariant_remove:
  assumes "invariant self" "map_of (p_dict self) key = Some old_value"
  shows "invariant \<lparr>p_dict = AList.delete key (p_dict self),
              p_list = remove1 (old_value, key) (p_list self)\<rparr>"
proof -
  let ?d = "p_dict self"
  have d: "distinct (map fst ?d)" using assms by (simp add: invariant_def)
  have "set (value_key_pairs (AList.delete key ?d)) = set (value_key_pairs ?d) - {(old_value, key)}"
    using map_of_in_set[OF d, of key] assms(2) by (auto simp: set_delete)
  then show ?thesis
    using assms(1)
    by (simp add: invariant_def sorted_remove1 AList.distinct_delete)
qed

lemma invariant_replace:
  assumes "invariant self" "map_of (p_dict self) key = Some old_value"
  shows "invariant \<lparr>p_dict = AList.update key value (p_dict self),
              p_list = sl_add (value, key) (remove1 (old_value, key) (p_list self))\<rparr>"
proof -
  let ?d = "p_dict self" and ?l = "p_list self"
  let ?d' = "AList.delete key ?d" and ?l' = "remove1 (old_value, key) ?l"
  have "invariant \<lparr>p_dict = ?d', p_list = ?l'\<rparr>"
    using assms by (rule invariant_remove)
  moreover have "map_of ?d' key = None"
    by (simp add: AList.delete_conv')
  ultimately have "invariant \<lparr>p_dict = AList.update key value ?d', p_list = sl_add (value, key) ?l'\<rparr>"
    using invariant_insert[of "\<lparr>p_dict = ?d', p_list = ?l'\<rparr>" key "value"] by simp
  then have dl: "distinct (sl_add (value, key) ?l')" and sl: "sorted (sl_add (value, key) ?l')"
    and eq: "set (sl_add (value, key) ?l') = set (value_key_pairs (AList.update key value ?d'))"
    by (simp_all add: invariant_def)
  have d: "distinct (map fst ?d)" using assms by (simp add: invariant_def)
  have "set (AList.update key value ?d') = set (AList.update key value ?d)"
    using d by (auto simp: set_update_distinct AList.distinct_delete set_delete)
  then have "set (value_key_pairs (AList.update key value ?d'))
      = set (value_key_pairs (AList.update key value ?d))"
    by (simp add: value_key_pairs_def)
  with eq have "set (sl_add (value, key) ?l') = set (value_key_pairs (AList.update key value ?d))"
    by simp
  with dl sl d show ?thesis
    by (simp add: invariant_def AList.distinct_update)
qed




lemma sl_position_less: "sl_position xs index = Some pos \<Longrightarrow> pos < length xs"
  by (auto simp: sl_position_def Let_def split: if_splits)

lemma remove1_nth_distinct:
  "distinct xs \<Longrightarrow> pos < length xs \<Longrightarrow> remove1 (xs ! pos) xs = delete_at pos xs"
proof (induction xs arbitrary: pos)
  case Nil
  then show ?case by simp
next
  case (Cons x xs)
  then show ?case
    by (cases pos) (auto simp: delete_at_def)
qed

lemma invariant_delete_at:
  assumes "invariant self" "pos < length (p_list self)" "p_list self ! pos = (value, key)"
  shows "contains (p_dict self) key"
    and "invariant \<lparr>p_dict = AList.delete key (p_dict self), p_list = delete_at pos (p_list self)\<rparr>"
proof -
  have "(value, key) \<in> set (p_list self)" using assms(2,3) by (metis nth_mem)
  then have m: "map_of (p_dict self) key = Some value"
    using assms(1) by (simp add: invariant_member)
  then show "contains (p_dict self) key" by (simp add: contains_def)
  have "distinct (p_list self)" using assms(1) by (simp add: invariant_def)
  then have "remove1 (value, key) (p_list self) = delete_at pos (p_list self)"
    using remove1_nth_distinct[of "p_list self" pos] assms(2,3) by simp
  then show "invariant \<lparr>p_dict = AList.delete key (p_dict self), p_list = delete_at pos (p_list self)\<rparr>"
    using invariant_remove[OF assms(1) m] by simp
qed


subsection \<open>update and the merges keep the invariants\<close>

lemma distinct_dict_update:
  "distinct (map fst d) \<Longrightarrow> distinct (map fst (dict_update items d))"
  unfolding dict_update_def
  by (induction items arbitrary: d) (auto simp: AList.distinct_update)

lemma distinct_add_items:
  "distinct (map fst d) \<Longrightarrow> distinct (map fst (add_items that d))"
  by (induction that d rule: add_items.induct)
     (auto simp: AList.distinct_update split: option.splits)




lemma invariant_empty: "invariant \<lparr>p_dict = [], p_list = []\<rparr>"
  by (simp add: invariant_def value_key_pairs_def)

lemma invariant_nil_list: "invariant self \<Longrightarrow> p_dict self = [] \<Longrightarrow> p_list self = []"
  using invariant_length[of self] by simp

lemma update_loop_invariant:
  "invariant self \<Longrightarrow> invariant (state_of (update_loop items self))"
proof (induction items arbitrary: self)
  case Nil
  then show ?case by simp
next
  case (Cons item items)
  obtain key v where item: "item = (key, v)" by (cases item)
  show ?case
  proof (cases "map_of (p_dict self) key")
    case None
    then show ?thesis using Cons.prems item by simp
  next
    case (Some old_value)
    then show ?thesis
      using Cons.IH[OF invariant_replace[OF Cons.prems Some]]
        sl_remove_present[OF Cons.prems Some] item
      by simp
  qed
qed

lemma update_invariant:
  assumes "invariant self"
  shows "invariant (state_of (update arguments self))"
proof (cases "py_dict arguments")
  case (Inl e)
  then show ?thesis using assms by (simp add: update_def)
next
  case (Inr items)
  have "distinct (map fst (p_dict self))" using assms by (simp add: invariant_def)
  then have "invariant \<lparr>p_dict = dict_update items (p_dict self),
      p_list = sl_update (value_key_pairs (dict_update items (p_dict self))) []\<rparr>"
    by (intro invariant_rebuild distinct_dict_update)
  then show ?thesis
    using Inr update_loop_invariant[OF assms, of items]
    by (simp add: update_def Let_def)
qed

lemma init_invariant: "invariant (state_of (init arguments))"
  unfolding init_def by (rule update_invariant) (rule invariant_empty)

lemma init_NoArgs: "state_of (init NoArgs) = \<lparr>p_dict = [], p_list = []\<rparr>"
  by (simp add: init_def update_def)










lemma distinct_dict_copy: "distinct (map fst (dict_update d []))"
  by (rule distinct_dict_update) simp

lemma op_add_invariant: "invariant (op_add that self)"
  using invariant_rebuild[OF distinct_add_items[OF distinct_dict_copy]]
  by (simp add: op_add_def init_NoArgs Let_def)




subsection \<open>Bisection\<close>

lemma bisect_left_loop_split:
  assumes "lo \<le> hi" "hi \<le> length xs"
    and "\<forall>i<lo. P (xs ! i)"
    and "\<forall>i. hi \<le> i \<and> i < length xs \<longrightarrow> \<not> P (xs ! i)"
    and mono: "\<forall>i j. i \<le> j \<and> j < length xs \<and> P (xs ! j) \<longrightarrow> P (xs ! i)"
  shows "split_at P xs (bisect_left_loop P xs lo hi)"
  using assms
proof (induction P xs lo hi rule: bisect_left_loop.induct)
  case (1 lt_x a lo hi)
  let ?mid = "(lo + hi) div 2"
  note mono = "1.prems"(5)
  show ?case
  proof (cases "lo < hi")
    case False
    then have "lo = hi" using "1.prems"(1) by simp
    then have "split_at lt_x a lo"
      using "1.prems"(2,3,4) by (simp add: split_at_def)
    then show ?thesis using False by (subst bisect_left_loop.simps) simp
  next
    case True
    then have mid: "lo \<le> ?mid" "?mid < hi" by auto
    show ?thesis
    proof (cases "lt_x (a ! ?mid)")
      case lt: True
      have "\<forall>i<?mid + 1. lt_x (a ! i)"
      proof (intro allI impI)
        fix i assume "i < ?mid + 1"
        then have "i \<le> ?mid" by simp
        moreover have "?mid < length a" using mid "1.prems"(2) by simp
        ultimately show "lt_x (a ! i)" using lt mono by blast
      qed
      then have "split_at lt_x a (bisect_left_loop lt_x a (?mid + 1) hi)"
        using "1.IH"(1)[OF True lt] mid "1.prems"(2,4,5) by simp
      then show ?thesis using True lt by (subst bisect_left_loop.simps) simp
    next
      case nlt: False
      have "\<forall>i. ?mid \<le> i \<and> i < length a \<longrightarrow> \<not> lt_x (a ! i)"
        using nlt mono by blast
      then have "split_at lt_x a (bisect_left_loop lt_x a lo ?mid)"
        using "1.IH"(2)[OF True nlt] mid "1.prems"(2,3,5) by simp
      then show ?thesis using True nlt by (subst bisect_left_loop.simps) simp
    qed
  qed
qed

lemma bisect_right_loop_eq:
  "bisect_right_loop x_lt a lo hi = bisect_left_loop (\<lambda>item. \<not> x_lt item) a lo hi"
proof (induction x_lt a lo hi rule: bisect_right_loop.induct)
  case (1 x_lt a lo hi)
  let ?mid = "(lo + hi) div 2"
  show ?case
  proof (cases "lo < hi")
    case False
    then show ?thesis
      by (subst bisect_right_loop.simps, subst bisect_left_loop.simps) simp
  next
    case True
    show ?thesis
    proof (cases "x_lt (a ! ?mid)")
      case lt: True
      have "bisect_right_loop x_lt a lo hi = bisect_right_loop x_lt a lo ?mid"
        using True lt by (subst bisect_right_loop.simps) simp
      moreover have "bisect_left_loop (\<lambda>item. \<not> x_lt item) a lo hi
          = bisect_left_loop (\<lambda>item. \<not> x_lt item) a lo ?mid"
        using True lt by (subst bisect_left_loop.simps) simp
      ultimately show ?thesis using "1.IH"(1)[OF True lt] by simp
    next
      case nlt: False
      have "bisect_right_loop x_lt a lo hi = bisect_right_loop x_lt a (?mid + 1) hi"
        using True nlt by (subst bisect_right_loop.simps) simp
      moreover have "bisect_left_loop (\<lambda>item. \<not> x_lt item) a lo hi
          = bisect_left_loop (\<lambda>item. \<not> x_lt item) a (?mid + 1) hi"
        using True nlt by (subst bisect_left_loop.simps) simp
      ultimately show ?thesis using "1.IH"(2)[OF True nlt] by simp
    qed
  qed
qed

lemma split_at_filter:
  assumes "split_at P xs r"
  shows "take r xs = filter P xs" and "drop r xs = filter (\<lambda>x. \<not> P x) xs"
proof -
  have t: "\<forall>x \<in> set (take r xs). P x"
    using assms by (auto simp: split_at_def in_set_conv_nth)
  have d: "\<forall>x \<in> set (drop r xs). \<not> P x"
    using assms by (auto simp: split_at_def in_set_conv_nth)
  have "filter P xs = filter P (take r xs) @ filter P (drop r xs)"
    by (metis append_take_drop_id filter_append)
  then show "take r xs = filter P xs" using t d by simp
  have "filter (\<lambda>x. \<not> P x) xs
      = filter (\<lambda>x. \<not> P x) (take r xs) @ filter (\<lambda>x. \<not> P x) (drop r xs)"
    by (metis append_take_drop_id filter_append)
  then show "drop r xs = filter (\<lambda>x. \<not> P x) xs" using t d by simp
qed

lemma split_at_length: "split_at P xs r \<Longrightarrow> r = length (filter P xs)"
  using split_at_filter(1)[of P xs r] by (metis length_take min.absorb2 split_at_def)

lemma sorted_fst_mono:
  "sorted (xs :: ('v::linorder \<times> 'k::linorder) list) \<Longrightarrow> i \<le> j \<Longrightarrow> j < length xs \<Longrightarrow>
   fst (xs ! i) \<le> fst (xs ! j)"
proof -
  assume "sorted xs" "i \<le> j" "j < length xs"
  then have "xs ! i \<le> xs ! j" by (simp add: sorted_nth_mono)
  then show ?thesis by (auto simp: less_eq_prod_def)
qed

lemma item_lt_tuple1_eq: "item_lt_tuple1 value item \<longleftrightarrow> fst item < value"
  by (auto simp: item_lt_tuple1_def)

lemma tuple_biggest_lt_item_eq: "tuple_biggest_lt_item value item \<longleftrightarrow> value < fst item"
  by (auto simp: tuple_biggest_lt_item_def Biggest_lt_def Biggest_eq_def)

lemma bisect_left_split:
  assumes "sorted (p_list self)"
  shows "split_at (\<lambda>item. fst item < value) (p_list self) (bisect_left value self)"
proof -
  have mono: "\<forall>i j. i \<le> j \<and> j < length (p_list self) \<and> fst (p_list self ! j) < value
      \<longrightarrow> fst (p_list self ! i) < value"
    using sorted_fst_mono[OF assms] by (meson le_less_trans)
  have r: "split_at (\<lambda>item. fst item < value) (p_list self)
      (bisect_left_loop (\<lambda>item. fst item < value) (p_list self) 0 (length (p_list self)))"
  proof (rule bisect_left_loop_split)
    show "\<forall>i. length (p_list self) \<le> i \<and> i < length (p_list self)
        \<longrightarrow> \<not> fst (p_list self ! i) < value"
      by auto
    show "\<forall>i j. i \<le> j \<and> j < length (p_list self) \<and> fst (p_list self ! j) < value
        \<longrightarrow> fst (p_list self ! i) < value"
      by (rule mono)
  qed simp_all
  have eq: "item_lt_tuple1 value = (\<lambda>item. fst item < value)"
    by (auto simp: item_lt_tuple1_def fun_eq_iff)
  show ?thesis
    unfolding bisect_left_def sl_bisect_left_def eq by (rule r)
qed

lemma bisect_right_split:
  assumes "sorted (p_list self)"
  shows "split_at (\<lambda>item. fst item \<le> value) (p_list self) (bisect_right value self)"
proof -
  have mono: "\<forall>i j. i \<le> j \<and> j < length (p_list self) \<and> fst (p_list self ! j) \<le> value
      \<longrightarrow> fst (p_list self ! i) \<le> value"
    using sorted_fst_mono[OF assms] by (meson order_trans)
  have r: "split_at (\<lambda>item. fst item \<le> value) (p_list self)
      (bisect_left_loop (\<lambda>item. fst item \<le> value) (p_list self) 0 (length (p_list self)))"
  proof (rule bisect_left_loop_split)
    show "\<forall>i. length (p_list self) \<le> i \<and> i < length (p_list self)
        \<longrightarrow> \<not> fst (p_list self ! i) \<le> value"
      by auto
    show "\<forall>i j. i \<le> j \<and> j < length (p_list self) \<and> fst (p_list self ! j) \<le> value
        \<longrightarrow> fst (p_list self ! i) \<le> value"
      by (rule mono)
  qed simp_all
  have eq: "(\<lambda>item. \<not> tuple_biggest_lt_item value item) = (\<lambda>item. fst item \<le> value)"
    by (auto simp: tuple_biggest_lt_item_def Biggest_lt_def Biggest_eq_def fun_eq_iff)
  show ?thesis
    unfolding bisect_right_def sl_bisect_right_def bisect_right_loop_eq eq by (rule r)
qed

subsection \<open>Counting entries and deleting keys\<close>

lemma delete_filter: "AList.delete key d = filter (\<lambda>p. fst p \<noteq> key) d"
  by (induction d) (auto simp: AList.delete_eq)

lemma contains_iff: "contains d key \<longleftrightarrow> key \<in> fst ` set d"
  by (simp add: contains_def map_of_eq_None_iff)

lemma del_keys_present:
  "distinct keys \<Longrightarrow> set keys \<subseteq> fst ` set d \<Longrightarrow>
   del_keys keys d = ([], filter (\<lambda>p. fst p \<notin> set keys) d)"
proof (induction keys arbitrary: d)
  case Nil
  then show ?case by simp
next
  case (Cons key keys)
  have c: "contains d key" using Cons.prems(2) by (simp add: contains_iff)
  have "set keys \<subseteq> fst ` set (AList.delete key d)"
  proof
    fix k assume k: "k \<in> set keys"
    then obtain p where "p \<in> set d" "fst p = k" using Cons.prems(2) by auto
    moreover have "k \<noteq> key" using k Cons.prems(1) by auto
    ultimately show "k \<in> fst ` set (AList.delete key d)"
      by (force simp: delete_filter)
  qed
  then have "del_keys keys (AList.delete key d)
      = ([], filter (\<lambda>p. fst p \<notin> set keys) (AList.delete key d))"
    using Cons.IH Cons.prems(1) by simp
  moreover have "filter (\<lambda>p. fst p \<notin> set keys) (AList.delete key d)
      = filter (\<lambda>p. fst p \<notin> set (key # keys)) d"
    by (auto simp: delete_filter intro: filter_cong)
  ultimately show ?case using c by simp
qed

lemma invariant_distinct_keys:
  assumes "invariant self"
  shows "distinct (map snd (p_list self))"
proof -
  have d: "distinct (map fst (p_dict self))" and dl: "distinct (p_list self)"
    and eq: "set (p_list self) = set (value_key_pairs (p_dict self))"
    using assms by (simp_all add: invariant_def)
  have "inj_on snd (set (p_list self))"
  proof (rule inj_onI)
    fix x y assume x: "x \<in> set (p_list self)" and y: "y \<in> set (p_list self)"
      and s: "snd x = snd y"
    obtain v k where xv: "x = (v, k)" by (cases x)
    obtain v' k' where yv: "y = (v', k')" by (cases y)
    have "map_of (p_dict self) k = Some v" using x xv assms by (simp add: invariant_member)
    moreover have "map_of (p_dict self) k = Some v'"
      using y yv s xv assms by (simp add: invariant_member)
    ultimately show "x = y" using xv yv s by simp
  qed
  then show ?thesis using dl by (simp add: distinct_map)
qed

lemma filter_value_split:
  "length (filter (\<lambda>item. fst item \<le> (v::'v::linorder)) l)
     = length (filter (\<lambda>item. fst item < v) l) + length (filter (\<lambda>item. fst item = v) l)"
  by (induction l) auto

lemma count_entries:
  assumes "invariant self"
  shows "length (filter (\<lambda>(key, value). P value key) (p_dict self))
       = length (filter (\<lambda>(value, key). P value key) (p_list self))"
proof -
  let ?d = "p_dict self" and ?l = "p_list self"
  have d: "distinct ?d" using assms distinct_map unfolding invariant_def by blast
  have dl: "distinct ?l" using assms by (simp add: invariant_def)
  have eq: "set ?l = set (value_key_pairs ?d)" using assms by (simp add: invariant_def)
  have "{x \<in> set ?l. case x of (value, key) \<Rightarrow> P value key}
      = (\<lambda>(key, value). (value, key)) ` {x \<in> set ?d. case x of (key, value) \<Rightarrow> P value key}"
    unfolding eq by (force simp: value_key_pairs_def)
  moreover have "inj_on (\<lambda>(key, value). (value, key)) {x \<in> set ?d. case x of (key, value) \<Rightarrow> P value key}"
    by (auto simp: inj_on_def)
  ultimately have "card {x \<in> set ?l. case x of (value, key) \<Rightarrow> P value key}
      = card {x \<in> set ?d. case x of (key, value) \<Rightarrow> P value key}"
    by (simp add: card_image)
  moreover have "length (filter (\<lambda>(key, value). P value key) ?d)
      = card {x \<in> set ?d. case x of (key, value) \<Rightarrow> P value key}"
    using d by (simp add: distinct_length_filter Int_def conj_commute)
  moreover have "length (filter (\<lambda>(value, key). P value key) ?l)
      = card {x \<in> set ?l. case x of (value, key) \<Rightarrow> P value key}"
    using dl by (simp add: distinct_length_filter Int_def conj_commute)
  ultimately show ?thesis by simp
qed

lemma bisect_counts:
  assumes "invariant self"
  shows "bisect_left v self \<le> bisect_right v self
    \<and> length (filter (\<lambda>(key, value). value = v) (p_dict self))
        = bisect_right v self - bisect_left v self
    \<and> bisect_left v self = length (filter (\<lambda>(value, key). value < v) (p_list self))
    \<and> bisect_right v self = length (filter (\<lambda>(value, key). value \<le> v) (p_list self))
    \<and> bisect_left v self = length (filter (item_lt_tuple1 v) (p_list self))
    \<and> bisect_right v self
        = length (filter (\<lambda>item. \<not> tuple_biggest_lt_item v item) (p_list self))
    \<and> (\<forall>i < length (p_list self). fst (p_list self ! i) = v \<longrightarrow> i < bisect_right v self)"
proof -
  let ?l = "p_list self"
  have s: "sorted ?l" using assms by (simp add: invariant_def)
  have sl: "split_at (\<lambda>item. fst item < v) ?l (bisect_left v self)"
    using s by (rule bisect_left_split)
  have sr: "split_at (\<lambda>item. fst item \<le> v) ?l (bisect_right v self)"
    using s by (rule bisect_right_split)
  have l: "bisect_left v self = length (filter (\<lambda>item. fst item < v) ?l)"
    using sl by (rule split_at_length)
  have r: "bisect_right v self = length (filter (\<lambda>item. fst item \<le> v) ?l)"
    using sr by (rule split_at_length)
  have c: "length (filter (\<lambda>(key, value). value = v) (p_dict self))
      = length (filter (\<lambda>item. fst item = v) ?l)"
    using count_entries[OF assms, of "\<lambda>value key. value = v"] by (simp add: case_prod_unfold)
  have past: "\<forall>i < length ?l. fst (?l ! i) = v \<longrightarrow> i < bisect_right v self"
    using sr unfolding split_at_def by (metis not_le_imp_less order_refl)
  have pl: "filter (item_lt_tuple1 v) ?l = filter (\<lambda>item. fst item < v) ?l"
    by (rule filter_cong) (simp_all add: item_lt_tuple1_eq)
  have pr: "filter (\<lambda>item. \<not> tuple_biggest_lt_item v item) ?l
      = filter (\<lambda>item. fst item \<le> v) ?l"
    by (rule filter_cong) (simp_all add: tuple_biggest_lt_item_eq not_less)
  show ?thesis
    unfolding pl pr
    using l r c past filter_value_split[of v ?l] by (simp add: case_prod_unfold)
qed

subsection \<open>clean\<close>

lemma invariant_filter:
  assumes "invariant self"
  shows "invariant \<lparr>p_dict = filter (\<lambda>(key, value). P value) (p_dict self),
                    p_list = filter (\<lambda>(value, key). P value) (p_list self)\<rparr>"
proof -
  have "distinct (map fst (filter (\<lambda>(key, value). P value) (p_dict self)))"
    using assms by (simp add: invariant_def distinct_map_filter)
  moreover have "set (filter (\<lambda>(value, key). P value) (p_list self))
      = set (value_key_pairs (filter (\<lambda>(key, value). P value) (p_dict self)))"
    using assms by (force simp: invariant_def value_key_pairs_def)
  ultimately show ?thesis
    using assms by (simp add: invariant_def sorted_wrt_filter)
qed

lemma clean_effect:
  assumes "invariant self"
  shows "clean t self =
     Return () \<lparr>p_dict = filter (\<lambda>(key, value). \<not> value \<le> t) (p_dict self),
                p_list = filter (\<lambda>(value, key). \<not> value \<le> t) (p_list self)\<rparr>"
    and "drop (bisect_right t self) (p_list self)
       = filter (\<lambda>(value, key). \<not> value \<le> t) (p_list self)"
proof -
  let ?d = "p_dict self" and ?l = "p_list self" and ?pos = "bisect_right t self"
  have s: "sorted ?l" using assms by (simp add: invariant_def)
  have sr: "split_at (\<lambda>item. fst item \<le> t) ?l ?pos"
    using s by (rule bisect_right_split)
  have tk: "take ?pos ?l = filter (\<lambda>item. fst item \<le> t) ?l"
    and dr: "drop ?pos ?l = filter (\<lambda>item. \<not> fst item \<le> t) ?l"
    using split_at_filter[OF sr] by simp_all
  let ?keys = "map snd (take ?pos ?l)"
  have "distinct (map snd (take ?pos ?l))"
    using invariant_distinct_keys[OF assms] by (metis distinct_take take_map)
  moreover have "set ?keys \<subseteq> fst ` set ?d"
  proof
    fix k assume "k \<in> set ?keys"
    then obtain v where "(v, k) \<in> set ?l" by (auto dest: in_set_takeD)
    then have "map_of ?d k = Some v" using assms by (simp add: invariant_member)
    then show "k \<in> fst ` set ?d" by (metis map_of_eq_None_iff option.distinct(1))
  qed
  ultimately have dk: "del_keys ?keys ?d = ([], filter (\<lambda>p. fst p \<notin> set ?keys) ?d)"
    by (rule del_keys_present)
  have "filter (\<lambda>p. fst p \<notin> set ?keys) ?d = filter (\<lambda>(key, value). \<not> value \<le> t) ?d"
  proof (rule filter_cong[OF refl])
    fix p assume p: "p \<in> set ?d"
    obtain k v where pk: "p = (k, v)" by (cases p)
    have m: "map_of ?d k = Some v"
      using p pk assms by (simp add: invariant_def)
    have "k \<in> set ?keys \<longleftrightarrow> v \<le> t"
    proof
      assume "k \<in> set ?keys"
      then obtain v' where v': "(v', k) \<in> set ?l" "v' \<le> t" unfolding tk by auto
      then have "map_of ?d k = Some v'" using assms by (simp add: invariant_member)
      then show "v \<le> t" using m v' by simp
    next
      assume "v \<le> t"
      moreover have "(v, k) \<in> set ?l" using m assms by (simp add: invariant_member)
      ultimately have "(v, k) \<in> set (take ?pos ?l)" unfolding tk by simp
      then show "k \<in> set ?keys" by force
    qed
    then show "(fst p \<notin> set ?keys) = (case p of (key, value) \<Rightarrow> \<not> value \<le> t)"
      using pk by simp
  qed
  with dk have dk': "del_keys ?keys ?d = ([], filter (\<lambda>(key, value). \<not> value \<le> t) ?d)"
    by simp
  show "drop ?pos ?l = filter (\<lambda>(value, key). \<not> value \<le> t) ?l"
    using dr by (simp add: case_prod_unfold)
  then show "clean t self =
     Return () \<lparr>p_dict = filter (\<lambda>(key, value). \<not> value \<le> t) (p_dict self),
                p_list = filter (\<lambda>(value, key). \<not> value \<le> t) (p_list self)\<rparr>"
    using dk' by (simp add: clean_def Let_def)
qed

subsection \<open>What the arithmetic loops compute\<close>

lemma update_absent: "key \<notin> fst ` set d \<Longrightarrow> AList.update key v d = d @ [(key, v)]"
  by (induction d) auto

lemma dict_update_append:
  "distinct (map fst items) \<Longrightarrow> fst ` set d \<inter> fst ` set items = {} \<Longrightarrow>
   dict_update items d = d @ items"
proof (induction items arbitrary: d)
  case Nil
  then show ?case by (simp add: dict_update_def)
next
  case (Cons item items)
  obtain key v where item: "item = (key, v)" by (cases item)
  have k: "key \<notin> fst ` set d" using Cons.prems(2) item by auto
  have "fst ` set (d @ [(key, v)]) \<inter> fst ` set items = {}"
    using Cons.prems item by auto
  then have "dict_update items (d @ [(key, v)]) = (d @ [(key, v)]) @ items"
    using Cons.IH Cons.prems(1) by simp
  then show ?case using item update_absent[OF k] by (simp add: dict_update_def)
qed

lemma dict_copy: "distinct (map fst d) \<Longrightarrow> dict_update d [] = d"
  using dict_update_append[of d "[]"] by simp

lemma total_for_Cons:
  "total_for key ((k, v) # that) = (if k = key then v + total_for key that else total_for key that)"
  by (simp add: total_for_def)

lemma map_of_add_items:
  "map_of (add_items that d) key =
     (case map_of d key of
        Some v \<Rightarrow> Some (v + total_for key that)
      | None \<Rightarrow> (if key \<in> fst ` set that then Some (total_for key that) else None))"
proof (induction that d rule: add_items.induct)
  case (1 d)
  then show ?case by (simp add: total_for_def split: option.splits)
next
  case (2 k v that d)
  show ?case
  proof (cases "map_of d k")
    case None
    then show ?thesis using 2(1)[OF None]
      by (auto simp: total_for_Cons AList.update_conv' split: option.splits)
  next
    case (Some old)
    then show ?thesis using 2(2)[OF Some]
      by (auto simp: total_for_Cons AList.update_conv' split: option.splits)
  qed
qed

lemma map_of_sub_items:
  "map_of (sub_items that d) key = map_option (\<lambda>v. v - total_for key that) (map_of d key)"
proof (induction that d rule: sub_items.induct)
  case (1 d)
  then show ?case by (simp add: total_for_def option.map_ident)
next
  case (2 k v that d)
  show ?case
  proof (cases "map_of d k")
    case None
    then show ?thesis using 2(1)[OF None]
      by (auto simp: total_for_Cons)
  next
    case (Some old)
    then show ?thesis using 2(2)[OF Some]
      by (auto simp: total_for_Cons AList.update_conv')
  qed
qed

lemma p_dict_op_add:
  "distinct (map fst (p_dict self)) \<Longrightarrow> p_dict (op_add that self) = add_items that (p_dict self)"
  by (simp add: op_add_def init_NoArgs Let_def dict_copy)

lemma p_dict_op_sub:
  "distinct (map fst (p_dict self)) \<Longrightarrow> p_dict (op_sub that self) = sub_items that (p_dict self)"
  by (simp add: op_sub_def init_NoArgs Let_def dict_copy)

subsection \<open>update on its two branches\<close>

lemma update_rebuild:
  assumes "py_dict arguments = Inr items" "10 * length items > length (p_dict self)"
  shows "update arguments self =
     Return () \<lparr>p_dict = dict_update items (p_dict self),
                p_list = sort (value_key_pairs (dict_update items (p_dict self)))\<rparr>"
  using assms by (simp add: update_def Let_def sl_update_def)

lemma map_of_dict_update:
  "map_of (dict_update items d) = map_of d ++ map_of (rev items)"
  unfolding dict_update_def
  by (induction items arbitrary: d) (auto simp: AList.update_conv' map_add_def fun_eq_iff split: option.splits)

lemma update_incremental_absent_key:
  assumes "invariant self" "py_dict arguments = Inr items"
    "\<not> 10 * length items > length (p_dict self)"
    "\<exists>key \<in> fst ` set items. \<not> contains (p_dict self) key"
  shows "raised (update arguments self) = Some KeyError"
proof -
  have "\<And>self. invariant self \<Longrightarrow> \<exists>key \<in> fst ` set items. \<not> contains (p_dict self) key
      \<Longrightarrow> raised (update_loop items self) = Some KeyError"
  proof (induction items)
    case Nil
    then show ?case by simp
  next
    case (Cons item items)
    obtain key v where item: "item = (key, v)" by (cases item)
    show ?case
    proof (cases "map_of (p_dict self) key")
      case None
      then show ?thesis using item by simp
    next
      case (Some old_value)
      let ?s = "\<lparr>p_dict = AList.update key v (p_dict self),
                 p_list = sl_add (v, key) (remove1 (old_value, key) (p_list self))\<rparr>"
      have i: "invariant ?s" using Cons.prems(1) Some by (rule invariant_replace)
      obtain k where k: "k \<in> fst ` set (item # items)" "\<not> contains (p_dict self) k"
        using Cons.prems(2) by blast
      have nk: "k \<noteq> key" using k(2) Some by (auto simp: contains_def)
      then have "k \<in> fst ` set items" using k(1) item by auto
      moreover have "\<not> contains (p_dict ?s) k"
        using k(2) nk by (simp add: contains_def AList.update_conv')
      ultimately have "\<exists>key \<in> fst ` set items. \<not> contains (p_dict ?s) key"
        by blast
      then have "raised (update_loop items ?s) = Some KeyError"
        using Cons.IH[OF i] by simp
      then show ?thesis
        using Some item sl_remove_present[OF Cons.prems(1) Some] by simp
    qed
  qed
  then show ?thesis using assms by (simp add: update_def)
qed

subsection \<open>The values view\<close>

lemma ValuesView_index_raises:
  "ValuesView_index value (ValuesView_init priority_dict) = Inl AttributeError"
  by (simp add: ValuesView_index_def ValuesView_init_def getattr_def Let_def)

lemma ValuesView_count_correct:
  assumes "invariant priority_dict"
  shows "ValuesView_count v (ValuesView_init priority_dict)
     = Inr (int (length (filter (\<lambda>(key, value). value = v) (p_dict priority_dict))))"
proof -
  have "sl_bisect_left (item_lt_tuple1 v) (p_list priority_dict) = bisect_left v priority_dict"
    by (simp add: bisect_left_def)
  moreover have "sl_bisect_right (tuple_biggest_lt_item v) (p_list priority_dict)
      = bisect_right v priority_dict"
    by (simp add: bisect_right_def)
  ultimately show ?thesis
    using bisect_counts[OF assms, of v]
    by (simp add: ValuesView_count_def ValuesView_init_def getattr_def Let_def)
qed

subsection \<open>Objects and references\<close>

lemma loadD:
  assumes "load h self = Some s"
  obtains d l i where "self < length h" "d < length h" "l < length h"
    "h ! self = PriorityDictObject d l i" "h ! d = Dict (p_dict s)" "h ! l = SortedList (p_list s)"
proof -
  from assms obtain d l i where f: "get_fields h self = Some (d, l, i)"
    by (auto simp: load_def split: option.splits)
  then have a: "self < length h" "h ! self = PriorityDictObject d l i"
    by (auto simp: get_fields_def split: if_splits object.splits)
  from assms f have b: "d < length h" "l < length h"
    by (auto simp: load_def split: if_splits)
  from assms f b have "h ! d = Dict (p_dict s)" "h ! l = SortedList (p_list s)"
    by (auto simp: load_def split: object.splits)
  with a b that show thesis by blast
qed

lemma loadI:
  assumes "self < length h" "d < length h" "l < length h"
    "h ! self = PriorityDictObject d l i" "h ! d = Dict the_dict" "h ! l = SortedList the_list"
  shows "load h self = Some \<lparr>p_dict = the_dict, p_list = the_list\<rparr>"
    and "get_fields h self = Some (d, l, i)"
  using assms by (simp_all add: load_def get_fields_def)

lemma update_NoArgs: "update NoArgs \<lparr>p_dict = [], p_list = []\<rparr> = Return () \<lparr>p_dict = [], p_list = []\<rparr>"
  by (simp add: update_def)

lemma call_update_NoArgs:
  assumes "load h self = Some \<lparr>p_dict = [], p_list = []\<rparr>"
  shows "call (update NoArgs) self h = Some (Return () h)"
proof -
  from assms obtain d l i where h: "self < length h" "d < length h" "l < length h"
    "h ! self = PriorityDictObject d l i" "h ! d = Dict []" "h ! l = SortedList []"
    by (rule loadD) simp
  have f: "get_fields h self = Some (d, l, i)" using h by (simp add: get_fields_def)
  have "h[d := Dict [], l := SortedList []] = h"
    using h by (metis list_update_id)
  then have "store self \<lparr>p_dict = [], p_list = []\<rparr> h = h"
    by (simp add: store_def f)
  then show ?thesis by (simp add: call_def assms update_NoArgs)
qed

lemma new_PriorityDict_eq:
  "new_PriorityDict h =
     Some (length h,
           h @ [PriorityDictObject (length h + 1) (length h + 2) (length h + 3),
                Dict [], SortedList [], IlocWrapper (length h)])"
proof -
  let ?n = "length h"
  let ?h = "h @ [PriorityDictObject (?n + 1) (?n + 2) (?n + 3), Dict [], SortedList [],
                 IlocWrapper ?n]"
  have "load ?h ?n = Some \<lparr>p_dict = [], p_list = []\<rparr>"
    by (rule loadI[where d = "?n + 1" and l = "?n + 2" and i = "?n + 3"]; simp add: nth_append)
  then have "call (update NoArgs) ?n ?h = Some (Return () ?h)"
    by (rule call_update_NoArgs)
  then show ?thesis by (simp add: new_PriorityDict_def Let_def)
qed

lemma call_through_alias:
  assumes "self < length h" "that < length h" "d < length h" "l < length h"
    "h ! self = PriorityDictObject d l i" "h ! that = PriorityDictObject d l i"
    "h ! d = Dict (p_dict s)" "h ! l = SortedList (p_list s)"
  shows "\<exists>r. call method that h = Some r
    \<and> load (state_of r) self = Some (state_of (method s))
    \<and> load (state_of r) that = Some (state_of (method s))
    \<and> raised r = raised (method s)"
proof -
  have ls: "load h that = Some s" and ft: "get_fields h that = Some (d, l, i)"
    using loadI[OF assms(2,3,4,6,7,8)] by simp_all
  have ne: "d \<noteq> self" "l \<noteq> self" "d \<noteq> that" "l \<noteq> that" "d \<noteq> l"
    using assms by auto
  have st: "\<And>s'. load (store that s' h) self = Some s' \<and> load (store that s' h) that = Some s'"
  proof -
    fix s' :: "('a, 'b) PriorityDict"
    let ?h = "h[d := Dict (p_dict s'), l := SortedList (p_list s')]"
    have "load ?h self = Some \<lparr>p_dict = p_dict s', p_list = p_list s'\<rparr>"
      using assms ne by (intro loadI(1)[where d = d and l = l and i = i]) simp_all
    moreover have "load ?h that = Some \<lparr>p_dict = p_dict s', p_list = p_list s'\<rparr>"
      using assms ne by (intro loadI(1)[where d = d and l = l and i = i]) simp_all
    ultimately show "load (store that s' h) self = Some s' \<and> load (store that s' h) that = Some s'"
      by (simp add: store_def ft)
  qed
  show ?thesis
    by (cases "method s") (simp_all add: call_def ls st)
qed

subsection \<open>Slices\<close>

lemma delete_positions_nths:
  "delete_positions poss xs = nths xs {i. int i \<notin> set poss}"
proof -
  have "enumerate 0 xs = map (\<lambda>(x, i). (i, x)) (zip xs [0..<length xs])"
    by (simp add: enumerate_eq_zip zip_commute[of "[0..<length xs]" xs])
  then show ?thesis
    by (simp add: delete_positions_def nths_def filter_map o_def case_prod_unfold)
qed

lemma mult_le_of_le_div:
  assumes "(0::int) < b" "int k \<le> a div b"
  shows "int k * b \<le> a"
proof -
  have "int k * b \<le> (a div b) * b" using assms by (simp add: mult_right_mono)
  also have "\<dots> \<le> a" using assms(1) div_mult_mod_eq[of a b] pos_mod_sign[of b a] by linarith
  finally show ?thesis .
qed

lemma adjust_index_bounds:
  "step > 0 \<Longrightarrow> 0 \<le> adjust_index step (int n) i \<and> adjust_index step (int n) i \<le> int n"
  "step < 0 \<Longrightarrow> - 1 \<le> adjust_index step (int n) i \<and> adjust_index step (int n) i \<le> int n - 1"
  by (auto simp: adjust_index_def)

lemma slice_indices_bounds:
  assumes "slice_indices sl n = Some (start, stop, step)"
  shows "step \<noteq> 0"
    and "step > 0 \<Longrightarrow> 0 \<le> start \<and> stop \<le> int n"
    and "step < 0 \<Longrightarrow> start \<le> int n - 1 \<and> - 1 \<le> stop"
proof -
  obtain a b c where sl: "sl = Slice a b c" by (cases sl)
  show "step \<noteq> 0" using assms sl by (auto simp: Let_def split: if_splits)
  show "step > 0 \<Longrightarrow> 0 \<le> start \<and> stop \<le> int n"
    using assms sl adjust_index_bounds(1)[of step n]
    by (auto simp: Let_def split: if_splits option.splits)
  show "step < 0 \<Longrightarrow> start \<le> int n - 1 \<and> - 1 \<le> stop"
    using assms sl adjust_index_bounds(2)[of step n]
    by (auto simp: Let_def split: if_splits option.splits)
qed

lemma py_range_bounds:
  assumes "slice_indices sl n = Some (start, stop, step)" "i \<in> set (py_range start stop step)"
  shows "0 \<le> i \<and> i < int n"
proof -
  from assms(2) obtain k where k: "k < range_length start stop step" "i = start + int k * step"
    by (auto simp: py_range_def)
  note b = slice_indices_bounds[OF assms(1)]
  consider (pos) "step > 0" "start < stop" | (neg) "step < 0" "start > stop"
    using k(1) by (auto simp: range_length_def split: if_splits)
  then show ?thesis
  proof cases
    case pos
    then have "int k \<le> (stop - 1 - start) div step"
      using k(1) by (simp add: range_length_def)
    then have "int k * step \<le> stop - 1 - start"
      using pos(1) by (rule mult_le_of_le_div[rotated])
    moreover have "0 \<le> int k * step" using pos(1) by simp
    ultimately show ?thesis using b(2)[OF pos(1)] k(2) by linarith
  next
    case neg
    then have "int k \<le> (start - 1 - stop) div (- step)"
      using k(1) by (simp add: range_length_def)
    then have "int k * (- step) \<le> start - 1 - stop"
      using neg(1) by (intro mult_le_of_le_div) simp_all
    moreover have "0 \<le> int k * (- step)"
      using neg(1) by (intro mult_nonneg_nonneg) simp_all
    ultimately show ?thesis using b(3)[OF neg(1)] k(2) by (simp add: algebra_simps)
  qed
qed

lemma distinct_py_range: "step \<noteq> 0 \<Longrightarrow> distinct (py_range start stop step)"
  by (auto simp: py_range_def distinct_map inj_on_def)

subsection \<open>Positional deletion\<close>

lemma invariant_remove_items:
  assumes inv: "invariant self"
    and sub: "set items \<subseteq> set (p_list self)"
    and di: "distinct items"
    and l': "distinct l'" "sorted l'" "set l' = set (p_list self) - set items"
  shows "del_keys (map snd items) (p_dict self)
           = ([], filter (\<lambda>p. fst p \<notin> snd ` set items) (p_dict self))"
    and "invariant \<lparr>p_dict = filter (\<lambda>p. fst p \<notin> snd ` set items) (p_dict self),
                    p_list = l'\<rparr>"
proof -
  let ?d = "p_dict self" and ?l = "p_list self"
  let ?d' = "filter (\<lambda>p. fst p \<notin> snd ` set items) ?d"
  have inj: "inj_on snd (set ?l)"
    using invariant_distinct_keys[OF inv] inv
    by (simp add: distinct_map invariant_def)
  have "distinct (map snd items)"
    using di inj sub by (auto simp: distinct_map intro: inj_on_subset)
  moreover have "set (map snd items) \<subseteq> fst ` set ?d"
  proof
    fix k assume "k \<in> set (map snd items)"
    then obtain v where "(v, k) \<in> set ?l" using sub by auto
    then have "map_of ?d k = Some v" using inv by (simp add: invariant_member)
    then show "k \<in> fst ` set ?d" by (metis map_of_eq_None_iff option.distinct(1))
  qed
  ultimately have "del_keys (map snd items) ?d
      = ([], filter (\<lambda>p. fst p \<notin> set (map snd items)) ?d)"
    by (rule del_keys_present)
  then show "del_keys (map snd items) ?d = ([], ?d')" by simp
  have eq: "set ?l = set (value_key_pairs ?d)" using inv by (simp add: invariant_def)
  have "set l' = set (value_key_pairs ?d')"
  proof (rule set_eqI)
    fix x :: "'b \<times> 'a"
    obtain v k where x: "x = (v, k)" by (cases x)
    have "(v, k) \<in> set ?l \<Longrightarrow> ((v, k) \<in> set items \<longleftrightarrow> k \<in> snd ` set items)"
    proof
      assume "(v, k) \<in> set items"
      then show "k \<in> snd ` set items" by force
    next
      assume m: "(v, k) \<in> set ?l" and "k \<in> snd ` set items"
      then obtain v' where v': "(v', k) \<in> set items" by auto
      then have "(v', k) \<in> set ?l" using sub by auto
      then have "(v', k) = (v, k)" using inj_onD[OF inj, of "(v', k)" "(v, k)"] m by simp
      then show "(v, k) \<in> set items" using v' by simp
    qed
    then show "x \<in> set l' \<longleftrightarrow> x \<in> set (value_key_pairs ?d')"
      using x l'(3) eq by auto
  qed
  moreover have "distinct (map fst ?d')"
    using inv by (simp add: invariant_def distinct_map_filter)
  ultimately show "invariant \<lparr>p_dict = ?d', p_list = l'\<rparr>"
    using l'(1,2) by (simp add: invariant_def)
qed

lemma slice_items:
  assumes "distinct l" "slice_indices sl (length l) = Some (start, stop, step)"
  shows "set (map (\<lambda>i. l ! nat i) (py_range start stop step)) \<subseteq> set l"
    and "distinct (map (\<lambda>i. l ! nat i) (py_range start stop step))"
    and "set (delete_positions (py_range start stop step) l)
           = set l - set (map (\<lambda>i. l ! nat i) (py_range start stop step))"
proof -
  let ?r = "py_range start stop step"
  have b: "\<And>i. i \<in> set ?r \<Longrightarrow> 0 \<le> i \<and> nat i < length l"
    using py_range_bounds[OF assms(2)] by fastforce
  show "set (map (\<lambda>i. l ! nat i) ?r) \<subseteq> set l"
    using b by auto
  have "inj_on (\<lambda>i. l ! nat i) (set ?r)"
  proof (rule inj_onI)
    fix i j assume "i \<in> set ?r" "j \<in> set ?r" "l ! nat i = l ! nat j"
    then have "nat i = nat j" using b assms(1) by (simp add: nth_eq_iff_index_eq)
    then show "i = j" using b \<open>i \<in> set ?r\<close> \<open>j \<in> set ?r\<close> by (metis nat_eq_iff2)
  qed
  then show "distinct (map (\<lambda>i. l ! nat i) ?r)"
    using distinct_py_range[OF slice_indices_bounds(1)[OF assms(2)]]
    by (simp add: distinct_map)
  show "set (delete_positions ?r l) = set l - set (map (\<lambda>i. l ! nat i) ?r)"
  proof (rule set_eqI)
    fix x
    show "x \<in> set (delete_positions ?r l) \<longleftrightarrow> x \<in> set l - set (map (\<lambda>i. l ! nat i) ?r)"
    proof
      assume "x \<in> set (delete_positions ?r l)"
      then obtain i where i: "x = l ! i" "i < length l" "int i \<notin> set ?r"
        by (auto simp: delete_positions_nths set_nths)
      have "x \<notin> set (map (\<lambda>i. l ! nat i) ?r)"
      proof
        assume "x \<in> set (map (\<lambda>i. l ! nat i) ?r)"
        then obtain j where j: "j \<in> set ?r" "x = l ! nat j" by auto
        then have "nat j = i" using i b assms(1) by (simp add: nth_eq_iff_index_eq)
        then have "j = int i" using b[OF j(1)] by linarith
        then show False using i(3) j(1) by simp
      qed
      then show "x \<in> set l - set (map (\<lambda>i. l ! nat i) ?r)" using i by simp
    next
      assume "x \<in> set l - set (map (\<lambda>i. l ! nat i) ?r)"
      then obtain i where i: "x = l ! i" "i < length l" and n: "x \<notin> set (map (\<lambda>i. l ! nat i) ?r)"
        by (auto simp: in_set_conv_nth)
      have "int i \<notin> set ?r"
      proof
        assume "int i \<in> set ?r"
        then have "l ! nat (int i) \<in> set (map (\<lambda>i. l ! nat i) ?r)" by force
        then show False using n i by simp
      qed
      then show "x \<in> set (delete_positions ?r l)"
        using i by (auto simp: delete_positions_nths set_nths)
    qed
  qed
qed

lemma iloc_delitem_invariant:
  assumes "invariant self"
  shows "invariant (state_of (iloc_delitem i self))"
    and "raised (iloc_delitem i self) \<noteq> None \<Longrightarrow> state_of (iloc_delitem i self) = self"
proof -
  have "invariant (state_of (iloc_delitem i self))
    \<and> (raised (iloc_delitem i self) \<noteq> None \<longrightarrow> state_of (iloc_delitem i self) = self)"
  proof (cases i)
    case (Index n)
    show ?thesis
    proof (cases "sl_position (p_list self) n")
      case None
      then show ?thesis using assms Index by (simp add: sl_getitem_def)
    next
      case (Some pos)
      obtain v k where vk: "p_list self ! pos = (v, k)" by (cases "p_list self ! pos")
      have lt: "pos < length (p_list self)" using Some by (rule sl_position_less)
      show ?thesis
        using invariant_delete_at[OF assms lt vk] Some vk Index
        by (simp add: sl_getitem_def sl_delitem_def)
    qed
  next
    case (Range sl)
    show ?thesis
    proof (cases "slice_indices sl (length (p_list self))")
      case None
      then show ?thesis using assms Range by (simp add: sl_getslice_def)
    next
      case (Some t)
      obtain start stop step where t: "t = (start, stop, step)" by (cases t)
      let ?l = "p_list self"
      let ?items = "map (\<lambda>i. ?l ! nat i) (py_range start stop step)"
      let ?l' = "delete_positions (py_range start stop step) ?l"
      have dl: "distinct ?l" and sl: "sorted ?l" using assms by (simp_all add: invariant_def)
      note si = slice_items[OF dl Some[unfolded t]]
      have l': "distinct ?l'" "sorted ?l'"
        using dl sl by (simp_all add: delete_positions_nths sorted_nths)
      note r = invariant_remove_items[OF assms si(1,2) l' si(3)]
      show ?thesis
        using r Some t Range by (simp add: sl_getslice_def sl_delslice_def)
    qed
  qed
  then show "invariant (state_of (iloc_delitem i self))"
    and "raised (iloc_delitem i self) \<noteq> None \<Longrightarrow> state_of (iloc_delitem i self) = self"
    by simp_all
qed

subsection \<open>Sequences of calls\<close>

lemma iadd_loop_returns: "invariant self \<Longrightarrow> raised (iadd_loop that self) = None"
proof (induction that arbitrary: self)
  case Nil
  then show ?case by simp
next
  case (Cons item that)
  obtain key v where item: "item = (key, v)" by (cases item)
  show ?case
  proof (cases "map_of (p_dict self) key")
    case None
    then show ?thesis
      using Cons.IH[OF invariant_insert[OF Cons.prems None]] item by simp
  next
    case (Some old_value)
    then show ?thesis
      using Cons.IH[OF invariant_replace[OF Cons.prems Some]]
        sl_remove_present[OF Cons.prems Some] item
      by simp
  qed
qed

lemma isub_loop_returns: "invariant self \<Longrightarrow> raised (isub_loop that self) = None"
proof (induction that arbitrary: self)
  case Nil
  then show ?case by simp
next
  case (Cons item that)
  obtain key v where item: "item = (key, v)" by (cases item)
  show ?case
  proof (cases "map_of (p_dict self) key")
    case None
    then show ?thesis
      using Cons.IH[OF Cons.prems] item by simp
  next
    case (Some old_value)
    then show ?thesis
      using Cons.IH[OF invariant_replace[OF Cons.prems Some]]
        sl_remove_present[OF Cons.prems Some] item
      by simp
  qed
qed

lemma ior_loop_returns: "invariant self \<Longrightarrow> raised (ior_loop that self) = None"
proof (induction that arbitrary: self)
  case Nil
  then show ?case by simp
next
  case (Cons item that)
  obtain key v where item: "item = (key, v)" by (cases item)
  show ?case
  proof (cases "map_of (p_dict self) key")
    case None
    then show ?thesis
      using Cons.IH[OF invariant_insert[OF Cons.prems None]] item by simp
  next
    case (Some old_value)
    then show ?thesis
      using Cons.IH[OF invariant_replace[OF Cons.prems Some]]
        sl_remove_present[OF Cons.prems Some] item
      by simp
  qed
qed

lemma iand_loop_returns: "invariant self \<Longrightarrow> raised (iand_loop that self) = None"
proof (induction that arbitrary: self)
  case Nil
  then show ?case by simp
next
  case (Cons item that)
  obtain key v where item: "item = (key, v)" by (cases item)
  show ?case
  proof (cases "map_of (p_dict self) key")
    case None
    then show ?thesis
      using Cons.IH[OF Cons.prems] item by simp
  next
    case (Some old_value)
    then show ?thesis
      using Cons.IH[OF invariant_replace[OF Cons.prems Some]]
        sl_remove_present[OF Cons.prems Some] item
      by simp
  qed
qed






subsection \<open>Calls that raise\<close>

lemma add_items_with_total:
  "add_items_with (\<lambda>a b. Inr (a + b)) that d = (None, add_items that d)"
  by (induction that d rule: add_items.induct) (auto split: option.splits)

lemma iadd_loop_with_total:
  "iadd_loop_with (\<lambda>a b. Inr (a + b)) that self = iadd_loop that self"
  by (induction that self rule: iadd_loop.induct) (auto split: option.splits)

lemma iadd_with_total: "iadd_with (\<lambda>a b. Inr (a + b)) that self = iadd that self"
  by (simp add: iadd_with_def iadd_def add_items_with_total iadd_loop_with_total Let_def)

lemma add_items_with_nonempty: "d \<noteq> [] \<Longrightarrow> snd (add_items_with add that d) \<noteq> []"
  by (induction add that d rule: add_items_with.induct) (auto split: option.splits sum.splits)

lemma iadd_with_rebuild_raise:
  assumes "p_dict self \<noteq> []" "length that * 3 > length (p_dict self)"
    "iadd_with add that self = Raise e s'"
  shows "p_list s' = [] \<and> p_dict s' \<noteq> []"
proof -
  obtain r d where ad: "add_items_with add that (p_dict self) = (r, d)"
    by (cases "add_items_with add that (p_dict self)")
  have "d \<noteq> []" using add_items_with_nonempty[OF assms(1), of add that] ad by simp
  then show ?thesis
    using assms ad by (cases r) (auto simp: iadd_with_def)
qed

lemma delitem_failure:
  "delitem key self = Raise e s' \<Longrightarrow> s' = self"
  by (auto simp: delitem_def split: option.splits)

lemma pop_failure:
  "pop key dflt self = Raise e s' \<Longrightarrow> s' = self"
  by (auto simp: pop_def split: option.splits)

lemma popitem_failure:
  assumes "invariant self" "popitem index self = Raise e s'"
  shows "s' = self"
proof (cases "sl_position (p_list self) index")
  case None
  then show ?thesis using assms(2) by (simp add: popitem_def sl_pop_def)
next
  case (Some pos)
  obtain v k where vk: "p_list self ! pos = (v, k)" by (cases "p_list self ! pos")
  have lt: "pos < length (p_list self)" using Some by (rule sl_position_less)
  show ?thesis
    using invariant_delete_at(1)[OF assms(1) lt vk] Some vk assms(2)
    by (simp add: popitem_def sl_pop_def)
qed

lemma iloc_delitem_failure:
  assumes "invariant self" "iloc_delitem i self = Raise e s'"
  shows "s' = self"
  using iloc_delitem_invariant(2)[OF assms(1), of i] assms(2) by simp

section \<open>The claims\<close>

text \<open>
  C6. For every container that satisfies the invariants and every value \<open>v\<close>:
  \<open>bisect_left v \<le> bisect_right v\<close>; the number of entries of the Mapping Index whose
  value is exactly \<open>v\<close> is \<open>bisect_right v - bisect_left v\<close>; \<open>bisect_left v\<close> is the
  number of Order-Index items below the probe \<^verbatim>\<open>(v,)\<close>, that is, with a value less than
  \<open>v\<close>; and \<open>bisect_right v\<close>, probing with \<^verbatim>\<open>(v, _Biggest)\<close>, is the number of items
  that the probe is not below, that is, with a value at most \<open>v\<close>, so that every
  position holding the value \<open>v\<close> lies before it.
\<close>

theorem bisect_left_bisect_right:
  assumes "invariant self"
  shows "bisect_left v self \<le> bisect_right v self
    \<and> length (filter (\<lambda>(key, value). value = v) (p_dict self))
        = bisect_right v self - bisect_left v self
    \<and> bisect_left v self = length (filter (\<lambda>(value, key). value < v) (p_list self))
    \<and> bisect_right v self = length (filter (\<lambda>(value, key). value \<le> v) (p_list self))
    \<and> bisect_left v self = length (filter (item_lt_tuple1 v) (p_list self))
    \<and> bisect_right v self
        = length (filter (\<lambda>item. \<not> tuple_biggest_lt_item v item) (p_list self))
    \<and> (\<forall>i < length (p_list self). fst (p_list self ! i) = v \<longrightarrow> i < bisect_right v self)"
  using assms by (rule bisect_counts)

theorem bisect_left_bisect_right_witness:
  "invariant (state_of (init (Mapping [(''a'', 2::int), (''c'', 2), (''b'', 3)])))
   \<and> bisect_left 2 (state_of (init (Mapping [(''a'', 2::int), (''c'', 2), (''b'', 3)]))) = 0
   \<and> bisect_right 2 (state_of (init (Mapping [(''a'', 2::int), (''c'', 2), (''b'', 3)]))) = 2
   \<and> length (filter (\<lambda>(key, value). value = 2)
         (p_dict (state_of (init (Mapping [(''a'', 2::int), (''c'', 2), (''b'', 3)]))))) = 2 - 0"
proof -
  let ?c = "state_of (init (Mapping [(''a'', 2::int), (''c'', 2), (''b'', 3)]))"
  have h: "invariant ?c" by code_simp
  have l: "bisect_left 2 ?c = 0" by code_simp
  have r: "bisect_right 2 ?c = 2" by code_simp
  show ?thesis using h l r bisect_left_bisect_right[OF h, of 2] by simp
qed

text \<open>
  C7. For every container that satisfies the invariants and every threshold \<open>t\<close>,
  \<open>clean t\<close> (the specification's prune) returns normally; it removes from the Mapping
  Index exactly the entries with a value at most \<open>t\<close> and from the Order Index the
  prefix of length \<open>bisect_right t\<close>, which holds exactly the items with a value at most
  \<open>t\<close>; no remaining entry has a value at most \<open>t\<close>; the invariants hold afterwards;
  and a second \<open>clean t\<close> returns the same container.
\<close>

theorem clean_removes_up_to_threshold:
  assumes "invariant self"
  shows "\<exists>self'. clean t self = Return () self'
    \<and> p_dict self' = filter (\<lambda>(key, value). \<not> value \<le> t) (p_dict self)
    \<and> p_list self' = drop (bisect_right t self) (p_list self)
    \<and> p_list self' = filter (\<lambda>(value, key). \<not> value \<le> t) (p_list self)
    \<and> (\<forall>key value. map_of (p_dict self') key = Some value \<longrightarrow> \<not> value \<le> t)
    \<and> invariant self'
    \<and> clean t self' = Return () self'"
proof -
  let ?s = "\<lparr>p_dict = filter (\<lambda>(key, value). \<not> value \<le> t) (p_dict self),
             p_list = filter (\<lambda>(value, key). \<not> value \<le> t) (p_list self)\<rparr>"
  have c: "clean t self = Return () ?s" using assms by (rule clean_effect(1))
  have i: "invariant ?s" using assms by (rule invariant_filter)
  have "clean t ?s = Return () \<lparr>p_dict = filter (\<lambda>(key, value). \<not> value \<le> t) (p_dict ?s),
                p_list = filter (\<lambda>(value, key). \<not> value \<le> t) (p_list ?s)\<rparr>"
    using i by (rule clean_effect(1))
  moreover have "filter (\<lambda>(key, value). \<not> value \<le> t) (p_dict ?s) = p_dict ?s"
    by (simp add: case_prod_unfold)
  moreover have "filter (\<lambda>(value, key). \<not> value \<le> t) (p_list ?s) = p_list ?s"
    by (simp add: case_prod_unfold)
  ultimately have idem: "clean t ?s = Return () ?s" by simp
  have none: "\<forall>key value. map_of (p_dict ?s) key = Some value \<longrightarrow> \<not> value \<le> t"
  proof (intro allI impI)
    fix key v assume "map_of (p_dict ?s) key = Some v"
    then have "(key, v) \<in> set (p_dict ?s)" by (rule map_of_SomeD)
    then show "\<not> v \<le> t" by simp
  qed
  have dr: "p_list ?s = drop (bisect_right t self) (p_list self)"
    using clean_effect(2)[OF assms, of t] by simp
  have "clean t self = Return () ?s
    \<and> p_dict ?s = filter (\<lambda>(key, value). \<not> value \<le> t) (p_dict self)
    \<and> p_list ?s = drop (bisect_right t self) (p_list self)
    \<and> p_list ?s = filter (\<lambda>(value, key). \<not> value \<le> t) (p_list self)
    \<and> (\<forall>key value. map_of (p_dict ?s) key = Some value \<longrightarrow> \<not> value \<le> t)
    \<and> invariant ?s
    \<and> clean t ?s = Return () ?s"
    apply (intro conjI)
          apply (rule c)
         apply simp
        apply (rule dr)
       apply simp
      apply (rule none)
     apply (rule i)
    apply (rule idem)
    done
  then show ?thesis by (rule exI)
qed

theorem clean_removes_up_to_threshold_witness:
  "invariant (state_of (init (Mapping [(''a'', 2::int), (''b'', 3)])))
   \<and> clean 2 (state_of (init (Mapping [(''a'', 2::int), (''b'', 3)])))
       = Return () \<lparr>p_dict = [(''b'', 3)], p_list = [(3, ''b'')]\<rparr>
   \<and> clean 2 \<lparr>p_dict = [(''b'', 3::int)], p_list = [(3, ''b'')]\<rparr>
       = Return () \<lparr>p_dict = [(''b'', 3)], p_list = [(3, ''b'')]\<rparr>"
proof -
  let ?c = "state_of (init (Mapping [(''a'', 2::int), (''b'', 3)]))"
  have h: "invariant ?c" by code_simp
  have d: "p_dict ?c = [(''a'', 2), (''b'', 3)]" by code_simp
  from clean_removes_up_to_threshold[OF h, of 2] obtain self' where
    "clean 2 ?c = Return () self'"
    "p_dict self' = filter (\<lambda>(key, value). \<not> value \<le> 2) (p_dict ?c)"
    "p_list self' = filter (\<lambda>(value, key). \<not> value \<le> 2) (p_list ?c)"
    "clean 2 self' = Return () self'"
    by blast
  moreover have "filter (\<lambda>(key, value). \<not> value \<le> 2) (p_dict ?c) = [(''b'', 3)]"
    by code_simp
  moreover have "filter (\<lambda>(value, key). \<not> value \<le> 2) (p_list ?c) = [(3, ''b'')]"
    by code_simp
  ultimately have "self' = \<lparr>p_dict = [(''b'', 3)], p_list = [(3, ''b'')]\<rparr>"
    by simp
  then show ?thesis using h \<open>clean 2 ?c = Return () self'\<close> \<open>clean 2 self' = Return () self'\<close>
    by simp
qed

text \<open>
  C8. For every container \<open>A\<close> that satisfies the invariants and every operand \<open>B\<close>
  with integer values, the copy-producing Sum of \<open>A\<close> and \<open>B\<close> followed by the
  copy-producing Difference of the result and \<open>B\<close> assigns every key of \<open>A\<close> its
  original value.
\<close>

theorem sum_then_difference_restores:
  assumes "invariant A"
  shows "\<forall>key value. map_of (p_dict A) key = Some value
           \<longrightarrow> map_of (p_dict (op_sub B (op_add B A))) key = Some value"
proof (intro allI impI)
  fix key v
  assume m: "map_of (p_dict A) key = Some v"
  have dA: "distinct (map fst (p_dict A))" using assms by (simp add: invariant_def)
  have dS: "distinct (map fst (p_dict (op_add B A)))"
    using op_add_invariant[of B A] by (simp add: invariant_def)
  have "map_of (p_dict (op_add B A)) key = Some (v + total_for key B)"
    using m by (simp add: p_dict_op_add[OF dA] map_of_add_items)
  then show "map_of (p_dict (op_sub B (op_add B A))) key = Some v"
    by (simp add: p_dict_op_sub[OF dS] map_of_sub_items)
qed

theorem sum_then_difference_restores_witness:
  "invariant (state_of (init (Mapping [(''x'', 1::int)])))
   \<and> p_dict (op_add [(''x'', 5), (''y'', 2)] (state_of (init (Mapping [(''x'', 1::int)]))))
       = [(''x'', 6), (''y'', 2)]
   \<and> map_of (p_dict (op_sub [(''x'', 5), (''y'', 2)]
        (op_add [(''x'', 5), (''y'', 2)] (state_of (init (Mapping [(''x'', 1::int)])))))) ''x''
       = Some 1"
proof -
  let ?A = "state_of (init (Mapping [(''x'', 1::int)]))"
  have h: "invariant ?A" by code_simp
  have m: "map_of (p_dict ?A) ''x'' = Some 1" by code_simp
  have s: "p_dict (op_add [(''x'', 5), (''y'', 2)] ?A) = [(''x'', 6), (''y'', 2)]" by code_simp
  show ?thesis
    using h s m sum_then_difference_restores[OF h, of "[(''x'', 5), (''y'', 2)]"] by blast
qed

text \<open>
  C5, as stated, fails: on an empty container the in-place Difference (\<^verbatim>\<open>__isub__\<close>)
  and Min (\<^verbatim>\<open>__iand__\<close>) clear both indices and do not load the operand.
\<close>

theorem empty_self_difference_counterexample:
  "isub [(''x'', 1)] (state_of (init NoArgs)) = Return () \<lparr>p_dict = [], p_list = []\<rparr>
   \<and> iand [(''x'', 1)] (state_of (init NoArgs)) = Return () \<lparr>p_dict = [], p_list = []\<rparr>
   \<and> p_dict (state_of (isub [(''x'', 1)] (state_of (init NoArgs)))) \<noteq> [(''x'', 1)]"
  by code_simp

text \<open>
  C5, amended. If \<open>self\<close> is empty and satisfies the invariants and the operand is a
  mapping (one item per key), the in-place Sum (\<^verbatim>\<open>__iadd__\<close>) and Max (\<^verbatim>\<open>__ior__\<close>)
  load the operand and build the Order Index by one sort, so that \<open>self\<close> holds exactly
  the operand's entries; the in-place Difference and Min leave \<open>self\<close> empty.
\<close>

theorem empty_self_merges:
  assumes "invariant self" "p_dict self = []" "distinct (map fst that)"
  shows "iadd that self = Return () \<lparr>p_dict = that, p_list = sort (value_key_pairs that)\<rparr>
    \<and> ior that self = Return () \<lparr>p_dict = that, p_list = sort (value_key_pairs that)\<rparr>
    \<and> isub that self = Return () \<lparr>p_dict = [], p_list = []\<rparr>
    \<and> iand that self = Return () \<lparr>p_dict = [], p_list = []\<rparr>"
proof -
  have l: "p_list self = []" using assms(1,2) by (rule invariant_nil_list)
  have d: "dict_update that [] = that" using assms(3) by (rule dict_copy)
  show ?thesis
    using assms(2) l d by (simp add: iadd_def ior_def isub_def iand_def sl_update_def)
qed

theorem empty_self_merges_witness:
  "invariant (state_of (init NoArgs) :: (string, int) PriorityDict)
   \<and> iadd [(''y'', 2), (''x'', 1)] (state_of (init NoArgs))
       = Return () \<lparr>p_dict = [(''y'', 2), (''x'', 1)], p_list = [(1, ''x''), (2, ''y'')]\<rparr>
   \<and> isub [(''y'', 2), (''x'', 1)] (state_of (init NoArgs))
       = Return () \<lparr>p_dict = [], p_list = []\<rparr>"
proof -
  let ?e = "state_of (init NoArgs) :: (string, int) PriorityDict"
  have h: "invariant ?e" by code_simp
  have e: "p_dict ?e = []" by code_simp
  have t: "distinct (map fst [(''y'', 2::int), (''x'', 1)])" by simp
  have s: "sort (value_key_pairs [(''y'', 2::int), (''x'', 1)]) = [(1, ''x''), (2, ''y'')]"
    by code_simp
  show ?thesis
    using h s empty_self_merges[OF h e t] by simp
qed

text \<open>
  C2 does not hold of the code. \<^verbatim>\<open>update\<close> with a key that is absent from the container
  raises \<^verbatim>\<open>KeyError\<close> on the incremental branch (taken when \<open>10 * m \<le> n\<close>), at
  \<^verbatim>\<open>old_value = _dict[key]\<close>: a container of ten entries updated with one new key.
  The rebuild branch adds the key (lemma \<open>update_rebuild\<close>).
\<close>

theorem update_absent_key_incremental_path:
  "update (Mapping [(10, 5)])
     (state_of (init (Mapping [(0::int, 0::int), (1, 1), (2, 2), (3, 3), (4, 4),
                               (5, 5), (6, 6), (7, 7), (8, 8), (9, 9)])))
   = Raise KeyError
       \<lparr>p_dict = [(0, 0), (1, 1), (2, 2), (3, 3), (4, 4), (5, 5), (6, 6), (7, 7), (8, 8), (9, 9)],
        p_list = [(0, 0), (1, 1), (2, 2), (3, 3), (4, 4), (5, 5), (6, 6), (7, 7), (8, 8), (9, 9)]\<rparr>"
  by code_simp

text \<open>
  C3 does not hold of the code. Construction passes its argument to \<^verbatim>\<open>update\<close>, which
  builds \<^verbatim>\<open>dict(*args)\<close>; the elements \<^verbatim>\<open>"a"\<close>, \<^verbatim>\<open>"b"\<close> of a sequence of bare keys are
  sequences of length one, so \<^verbatim>\<open>dict\<close> raises \<^verbatim>\<open>ValueError\<close> and nothing is tallied.
  On the container \<open>{a: 2, b: 3}\<close> built from a mapping, \<open>most_common 1\<close> is
  \<open>[(b, 3)]\<close>.
\<close>

theorem init_from_bare_keys_raises:
  "init (Iterable (map str_element [''a'', ''b'', ''a'', ''b'', ''b'']))
     = Raise ValueError \<lparr>p_dict = [], p_list = []\<rparr>
   \<and> most_common (Some 1) (state_of (init (Mapping [(''a'', 2::int), (''b'', 3)])))
     = Inr [(''b'', 3)]"
  by code_simp

text \<open>
  C9 does not hold of the code. \<^verbatim>\<open>ValuesView.index\<close> reads \<^verbatim>\<open>self._dict\<close>, an attribute
  that a \<^verbatim>\<open>ValuesView\<close> does not have, and raises \<^verbatim>\<open>AttributeError\<close> whether or not the
  value is present (lemma \<open>ValuesView_index_raises\<close>). \<^verbatim>\<open>ValuesView.count\<close> is
  \<open>bisect_right - bisect_left\<close> and counts the entries with the value (lemma
  \<open>ValuesView_count_correct\<close>).
\<close>

theorem ValuesView_index_attribute_error:
  "ValuesView_index 1 (ValuesView_init (state_of (init (Mapping [(''a'', 1::int)]))))
     = Inl AttributeError
   \<and> ValuesView_index 2 (ValuesView_init (state_of (init (Mapping [(''a'', 1::int)]))))
     = Inl AttributeError
   \<and> ValuesView_count 1 (ValuesView_init (state_of (init (Mapping [(''a'', 1::int)])))) = Inr 1"
  by code_simp

text \<open>
  C10. For every heap in which \<open>self\<close> is a \<^verbatim>\<open>PriorityDict\<close> with content \<open>s\<close>,
  \<^verbatim>\<open>copy\<close> returns a new \<^verbatim>\<open>PriorityDict\<close> object whose \<^verbatim>\<open>_dict\<close>, \<^verbatim>\<open>_list\<close> and \<^verbatim>\<open>iloc\<close>
  fields hold the same addresses as those of \<open>self\<close> (nothing is duplicated), and a
  \<^verbatim>\<open>__setitem__\<close> or \<^verbatim>\<open>__delitem__\<close> made through the returned object is observed
  through \<open>self\<close>: afterwards \<open>self\<close> has the content the call would have given it.
\<close>

theorem copy_shares_indices:
  assumes "load h self = Some s"
  shows "\<exists>that h'. copy self h = Some (that, h')
    \<and> that \<noteq> self
    \<and> get_fields h' that = get_fields h' self
    \<and> get_fields h' self = get_fields h self
    \<and> load h' self = Some s
    \<and> load h' that = Some s
    \<and> (\<forall>key value. \<exists>r. call (setitem key value) that h' = Some r
          \<and> load (state_of r) self = Some (state_of (setitem key value s)))
    \<and> (\<forall>key. \<exists>r. call (delitem key) that h' = Some r
          \<and> load (state_of r) self = Some (state_of (delitem key s)))"
proof -
  from assms obtain d l i where h: "self < length h" "d < length h" "l < length h"
    "h ! self = PriorityDictObject d l i" "h ! d = Dict (p_dict s)" "h ! l = SortedList (p_list s)"
    by (rule loadD)
  let ?n = "length h"
  let ?h1 = "h @ [PriorityDictObject (?n + 1) (?n + 2) (?n + 3), Dict [], SortedList [],
                  IlocWrapper ?n]"
  let ?h' = "?h1[?n := PriorityDictObject d l i]"
  have f1: "get_fields ?h1 self = Some (d, l, i)"
    using h by (simp add: get_fields_def nth_append)
  have c: "copy self h = Some (?n, ?h')"
    unfolding copy_def new_PriorityDict_eq by (simp only: f1 option.case prod.case)
  have n: "self < length ?h'" "?n < length ?h'" "d < length ?h'" "l < length ?h'"
    "?h' ! self = PriorityDictObject d l i" "?h' ! ?n = PriorityDictObject d l i"
    "?h' ! d = Dict (p_dict s)" "?h' ! l = SortedList (p_list s)"
    using h by (simp_all add: nth_append nth_list_update)
  have fs: "get_fields ?h' self = Some (d, l, i)" and ls: "load ?h' self = Some s"
    using loadI[OF n(1,3,4,5,7,8)] by simp_all
  have ft: "get_fields ?h' ?n = Some (d, l, i)" and lt: "load ?h' ?n = Some s"
    using loadI[OF n(2,3,4,6,7,8)] by simp_all
  have f0: "get_fields h self = Some (d, l, i)"
    using h by (simp add: get_fields_def)
  have "copy self h = Some (?n, ?h')
    \<and> ?n \<noteq> self
    \<and> get_fields ?h' ?n = get_fields ?h' self
    \<and> get_fields ?h' self = get_fields h self
    \<and> load ?h' self = Some s
    \<and> load ?h' ?n = Some s
    \<and> (\<forall>key value. \<exists>r. call (setitem key value) ?n ?h' = Some r
          \<and> load (state_of r) self = Some (state_of (setitem key value s)))
    \<and> (\<forall>key. \<exists>r. call (delitem key) ?n ?h' = Some r
          \<and> load (state_of r) self = Some (state_of (delitem key s)))"
    apply (intro conjI allI)
           apply (rule c)
    using h(1) apply simp
         apply (simp only: fs ft)
        apply (simp only: fs f0)
       apply (rule ls)
      apply (rule lt)
    using call_through_alias[OF n] apply blast
    using call_through_alias[OF n] apply blast
    done
  then show ?thesis by blast
qed

theorem copy_shares_indices_witness:
  "load [PriorityDictObject 1 2 3, Dict [(''a'', 1::int)], SortedList [(1, ''a'')], IlocWrapper 0] 0
     = Some \<lparr>p_dict = [(''a'', 1)], p_list = [(1, ''a'')]\<rparr>
   \<and> (\<exists>that h' r.
         copy 0 [PriorityDictObject 1 2 3, Dict [(''a'', 1::int)], SortedList [(1, ''a'')],
                 IlocWrapper 0] = Some (that, h')
       \<and> that \<noteq> 0
       \<and> call (setitem ''b'' 5) that h' = Some r
       \<and> load (state_of r) 0
           = Some \<lparr>p_dict = [(''a'', 1), (''b'', 5)], p_list = [(1, ''a''), (5, ''b'')]\<rparr>)"
proof -
  let ?h = "[PriorityDictObject 1 2 3, Dict [(''a'', 1::int)], SortedList [(1, ''a'')],
             IlocWrapper 0]"
  let ?s = "\<lparr>p_dict = [(''a'', 1::int)], p_list = [(1, ''a'')]\<rparr>"
  have h: "load ?h 0 = Some ?s" by code_simp
  have e: "state_of (setitem ''b'' 5 ?s)
      = \<lparr>p_dict = [(''a'', 1), (''b'', 5)], p_list = [(1, ''a''), (5, ''b'')]\<rparr>"
    by code_simp
  from copy_shares_indices[OF h] obtain that h' where
    c: "copy 0 ?h = Some (that, h')" "that \<noteq> 0"
    and a: "\<forall>key value. \<exists>r. call (setitem key value) that h' = Some r
          \<and> load (state_of r) 0 = Some (state_of (setitem key value ?s))"
    by blast
  from a obtain r where "call (setitem ''b'' 5) that h' = Some r"
    "load (state_of r) 0 = Some (state_of (setitem ''b'' 5 ?s))"
    by blast
  with c e h show ?thesis by auto
qed



text \<open>
  C4, as stated, fails: on the container \<open>{a: 1}\<close> the in-place Sum with the operand
  \<open>{a: 'x'}\<close> takes the rebuild branch, clears the Order Index and then raises
  \<^verbatim>\<open>TypeError\<close> at \<^verbatim>\<open>_dict[key] += value\<close>. When the error is surfaced the Mapping Index
  holds one entry and the Order Index none: the state is not the state before the call
  and I1 does not hold.
\<close>

theorem merge_midway_counterexample:
  "invariant (state_of (init (Mapping [(''a'', IntValue 1)])))
   \<and> iadd_with py_add [(''a'', StrValue ''x'')] (state_of (init (Mapping [(''a'', IntValue 1)])))
       = Raise TypeError \<lparr>p_dict = [(''a'', IntValue 1)], p_list = []\<rparr>
   \<and> \<lparr>p_dict = [(''a'', IntValue 1)], p_list = []\<rparr>
       \<noteq> state_of (init (Mapping [(''a'', IntValue 1)]))
   \<and> \<not> invariant \<lparr>p_dict = [(''a'', IntValue 1)], p_list = []\<rparr>
   \<and> length (p_dict \<lparr>p_dict = [(''a'', IntValue 1)], p_list = []\<rparr>)
       \<noteq> length (p_list \<lparr>p_dict = [(''a'', IntValue 1)], p_list = ([] :: (pyvalue \<times> string) list)\<rparr>)"
  by code_simp

text \<open>
  C4, amended. For every container that satisfies the invariants: delete, pop, popitem
  and positional delete raise only with the state exactly as it was before the call, so
  that the invariants still hold, and so does an \<^verbatim>\<open>update\<close> whose argument cannot be made
  into a dict; a delete or a pop without default of an absent key raises \<^verbatim>\<open>KeyError\<close>,
  a popitem or positional delete at a position out of range raises \<^verbatim>\<open>IndexError\<close>, and
  a positional delete with a slice of step zero raises \<^verbatim>\<open>ValueError\<close>. A merge that raises
  mid-way is not undone: an in-place Sum whose addition raises on the rebuild branch
  surfaces the error with the Order Index empty and the Mapping Index not empty.
\<close>

theorem failed_call_before_mutation:
  assumes "invariant self"
  shows "(delitem key self = Raise e s' \<longrightarrow> s' = self \<and> invariant s')
    \<and> (pop key dflt self = Raise e s' \<longrightarrow> s' = self \<and> invariant s')
    \<and> (popitem index self = Raise e s' \<longrightarrow> s' = self \<and> invariant s')
    \<and> (iloc_delitem i self = Raise e s' \<longrightarrow> s' = self \<and> invariant s')
    \<and> (py_dict arguments = Inl e \<longrightarrow> update arguments self = Raise e self)
    \<and> (\<not> contains (p_dict self) key \<longrightarrow>
          delitem key self = Raise KeyError self \<and> pop key None self = Raise KeyError self)
    \<and> (sl_position (p_list self) index = None \<longrightarrow>
          popitem index self = Raise IndexError self
          \<and> iloc_delitem (Index index) self = Raise IndexError self)
    \<and> (slice_indices sl (length (p_list self)) = None \<longrightarrow>
          iloc_delitem (Range sl) self = Raise ValueError self)
    \<and> (p_dict self \<noteq> [] \<and> length that * 3 > length (p_dict self)
          \<and> iadd_with add that self = Raise e s'
          \<longrightarrow> p_list s' = [] \<and> p_dict s' \<noteq> [])"
proof -
  have a: "delitem key self = Raise e s' \<longrightarrow> s' = self \<and> invariant s'"
    using assms delitem_failure[of key self e s'] by blast
  have b: "pop key dflt self = Raise e s' \<longrightarrow> s' = self \<and> invariant s'"
    using assms pop_failure[of key dflt self e s'] by blast
  have c: "popitem index self = Raise e s' \<longrightarrow> s' = self \<and> invariant s'"
    using assms popitem_failure[OF assms, of index e s'] by blast
  have d: "iloc_delitem i self = Raise e s' \<longrightarrow> s' = self \<and> invariant s'"
    using assms iloc_delitem_failure[OF assms, of i e s'] by blast
  have u: "py_dict arguments = Inl e \<longrightarrow> update arguments self = Raise e self"
    by (simp add: update_def)
  have k: "\<not> contains (p_dict self) key \<longrightarrow>
          delitem key self = Raise KeyError self \<and> pop key None self = Raise KeyError self"
    by (simp add: contains_def delitem_def pop_def)
  have p: "sl_position (p_list self) index = None \<longrightarrow>
          popitem index self = Raise IndexError self
          \<and> iloc_delitem (Index index) self = Raise IndexError self"
    by (simp add: popitem_def sl_pop_def sl_getitem_def)
  have z: "slice_indices sl (length (p_list self)) = None \<longrightarrow>
          iloc_delitem (Range sl) self = Raise ValueError self"
    by (simp add: sl_getslice_def)
  have m: "p_dict self \<noteq> [] \<and> length that * 3 > length (p_dict self)
          \<and> iadd_with add that self = Raise e s'
          \<longrightarrow> p_list s' = [] \<and> p_dict s' \<noteq> []"
    using iadd_with_rebuild_raise[of self that add e s'] by blast
  show ?thesis
    apply (intro conjI)
            apply (rule a)
           apply (rule b)
          apply (rule c)
         apply (rule d)
        apply (rule u)
       apply (rule k)
      apply (rule p)
     apply (rule z)
    apply (rule m)
    done
qed

theorem failed_call_before_mutation_witness:
  "invariant (state_of (init (Mapping [(''a'', IntValue 1)])))
   \<and> delitem ''z'' (state_of (init (Mapping [(''a'', IntValue 1)])))
       = Raise KeyError (state_of (init (Mapping [(''a'', IntValue 1)])))
   \<and> popitem 1 (state_of (init (Mapping [(''a'', IntValue 1)])))
       = Raise IndexError (state_of (init (Mapping [(''a'', IntValue 1)])))
   \<and> update (Iterable [WrongLength 1]) (state_of (init (Mapping [(''a'', IntValue 1)])))
       = Raise ValueError (state_of (init (Mapping [(''a'', IntValue 1)])))
   \<and> p_list (state_of (iadd_with py_add [(''a'', StrValue ''x'')]
        (state_of (init (Mapping [(''a'', IntValue 1)]))))) = []"
proof -
  let ?c = "state_of (init (Mapping [(''a'', IntValue 1)]))"
  have h: "invariant ?c" by code_simp
  have k: "\<not> contains (p_dict ?c) ''z''" by code_simp
  have p: "sl_position (p_list ?c) 1 = None" by code_simp
  have u: "py_dict (Iterable [WrongLength 1] :: (string, pyvalue) args) = Inl ValueError"
    by simp
  have n: "p_dict ?c \<noteq> [] \<and> length [(''a'', StrValue ''x'')] * 3 > length (p_dict ?c)"
    by code_simp
  have r: "iadd_with py_add [(''a'', StrValue ''x'')] ?c
      = Raise TypeError (state_of (iadd_with py_add [(''a'', StrValue ''x'')] ?c))"
    by code_simp
  show ?thesis
    using h k p u n r
      failed_call_before_mutation[OF h, of "''z''" _ _ _ 1 _ "Iterable [WrongLength 1]"
        _ "[(''a'', StrValue ''x'')]" py_add, where e = ValueError]
      failed_call_before_mutation[OF h, of _ TypeError
        "state_of (iadd_with py_add [(''a'', StrValue ''x'')] ?c)" _ _ _ _ _
        "[(''a'', StrValue ''x'')]" py_add]
    by simp
qed


end
